theory Spec2Isabelle
  imports Complex_Main
begin

section \<open>Decimal rendering and parsing of integers\<close>

text \<open>
  Template strings such as \<^verbatim>\<open>`${baseKey}:${windowStart}`\<close> render an integer in
  decimal, Redis keeps a counter as the decimal string of its value, and
  \<^verbatim>\<open>Number.parseInt(raw, 10)\<close> reads it back.
\<close>

definition digit_char :: "nat \<Rightarrow> char" where
  "digit_char d = ''0123456789'' ! d"

definition is_digit :: "char \<Rightarrow> bool" where
  "is_digit c = (c \<in> set ''0123456789'')"

definition digit_val :: "char \<Rightarrow> nat" where
  "digit_val c = of_char c - 48"

fun show_nat :: "nat \<Rightarrow> string" where
  "show_nat n = (if n < 10 then [digit_char n] else show_nat (n div 10) @ [digit_char (n mod 10)])"

declare show_nat.simps [simp del]

definition show_int :: "int \<Rightarrow> string" where
  "show_int i = (if i < 0 then CHR ''-'' # show_nat (nat (- i)) else show_nat (nat i))"

definition dec_val :: "string \<Rightarrow> nat" where
  "dec_val ds = foldl (\<lambda>a c. 10 * a + digit_val c) 0 ds"

text \<open>
  \<^verbatim>\<open>Number.parseInt(raw, 10)\<close>: an optional sign, then the longest prefix of decimal
  digits; \<open>None\<close> stands for NaN (no digit to read).
\<close>

definition parseInt10 :: "string \<Rightarrow> int option" where
  "parseInt10 raw =
     (let (neg, rest) = (case raw of
                           c # cs \<Rightarrow> if c = CHR ''-'' then (True, cs)
                                     else if c = CHR ''+'' then (False, cs) else (False, raw)
                         | [] \<Rightarrow> (False, raw));
          ds = takeWhile is_digit rest
      in if ds = [] then None
         else Some (if neg then - int (dec_val ds) else int (dec_val ds)))"

text \<open>
  Redis reads a string as an integer only when it is the canonical decimal rendering of
  one (no sign \<open>+\<close>, no leading zero, nothing after the digits).
\<close>

definition redis_int :: "string \<Rightarrow> int option" where
  "redis_int raw =
     (case parseInt10 raw of
        None \<Rightarrow> None
      | Some n \<Rightarrow> if show_int n = raw then Some n else None)"

section \<open>The store: Redis keys with expiry\<close>

text \<open>
  Times are integers in milliseconds, as \<^verbatim>\<open>Date.now()\<close> gives them; one clock serves
  the callers and the store. A key whose expiry time has been reached is absent.
  Scores of a sorted set are the millisecond timestamps the scripts pass; the fields of
  a hash hold the numbers the token-bucket script writes (\<^verbatim>\<open>tostring\<close> on writing and
  \<^verbatim>\<open>tonumber\<close> on reading are taken to be exact, and Lua's floats to be real numbers).
  Counters are unbounded integers.
\<close>

datatype rvalue =
    RStr string
  | RZSet "(string \<times> int) list"
  | RHash "(string \<times> real) list"

record entry =
  val :: rvalue
  expireAt :: "int option"

type_synonym store = "string \<Rightarrow> entry option"

datatype redis_error = WRONGTYPE | NotAnInteger | InvalidExpire | ScriptError

definition live :: "store \<Rightarrow> int \<Rightarrow> string \<Rightarrow> entry option" where
  "live s now k =
     (case s k of
        None \<Rightarrow> None
      | Some e \<Rightarrow> (case expireAt e of
                    None \<Rightarrow> Some e
                  | Some t \<Rightarrow> if t \<le> now then None else Some e))"

text \<open>\<^verbatim>\<open>INCR key\<close>: an absent key counts from 0; the expiry of a live key is kept.\<close>

definition redis_incr :: "store \<Rightarrow> int \<Rightarrow> string \<Rightarrow> redis_error + (int \<times> store)" where
  "redis_incr s now k =
     (case live s now k of
        None \<Rightarrow> Inr (1, s(k \<mapsto> \<lparr>val = RStr (show_int 1), expireAt = None\<rparr>))
      | Some e \<Rightarrow>
          (case val e of
             RStr raw \<Rightarrow>
               (case redis_int raw of
                  None \<Rightarrow> Inl NotAnInteger
                | Some n \<Rightarrow> Inr (n + 1, s(k \<mapsto> e\<lparr>val := RStr (show_int (n + 1))\<rparr>)))
           | _ \<Rightarrow> Inl WRONGTYPE))"

text \<open>\<^verbatim>\<open>EXPIRE key seconds\<close>: no effect on an absent key.\<close>

definition redis_expire :: "store \<Rightarrow> int \<Rightarrow> string \<Rightarrow> int \<Rightarrow> store" where
  "redis_expire s now k secs =
     (case live s now k of
        None \<Rightarrow> s
      | Some e \<Rightarrow> s(k \<mapsto> e\<lparr>expireAt := Some (now + secs * 1000)\<rparr>))"

text \<open>\<^verbatim>\<open>GET key\<close>: \<open>None\<close> is the null reply.\<close>

definition redis_get :: "store \<Rightarrow> int \<Rightarrow> string \<Rightarrow> redis_error + string option" where
  "redis_get s now k =
     (case live s now k of
        None \<Rightarrow> Inr None
      | Some e \<Rightarrow> (case val e of RStr raw \<Rightarrow> Inr (Some raw) | _ \<Rightarrow> Inl WRONGTYPE))"

text \<open>\<^verbatim>\<open>DEL key\<close>: the number of keys removed, and the store without the key.\<close>

definition redis_del :: "store \<Rightarrow> int \<Rightarrow> string \<Rightarrow> nat \<times> store" where
  "redis_del s now k = ((if live s now k = None then 0 else 1), s(k := None))"

section \<open>Results of the rate limiter\<close>

record RateLimitResult =
  allowed :: bool
  remaining :: int
  limit :: int
  retryAfter :: int

text \<open>A sequence of calls, each with its own argument (the clock values it observes),
  threaded through the store; the first failure ends it, as a raised error would.\<close>

fun run_calls :: "('a \<Rightarrow> store \<Rightarrow> 'e + ('r \<times> store)) \<Rightarrow> 'a list \<Rightarrow> store \<Rightarrow> 'e + ('r list \<times> store)" where
  "run_calls f [] s = Inr ([], s)"
| "run_calls f (a # as) s =
     (case f a s of
        Inl e \<Rightarrow> Inl e
      | Inr (r, s1) \<Rightarrow>
          (case run_calls f as s1 of
             Inl e \<Rightarrow> Inl e
           | Inr (rs, s2) \<Rightarrow> Inr (r # rs, s2)))"

text \<open>The results of a sequence of calls that all returned (none when one failed), and
  the store no key was ever written to.\<close>

definition call_results :: "'e + ('r list \<times> store) \<Rightarrow> 'r list" where
  "call_results x = (case x of Inl e \<Rightarrow> [] | Inr (rs, s) \<Rightarrow> rs)"

definition empty_store :: store where
  "empty_store = (\<lambda>k. None)"

section \<open>Fixed window strategy (strategies/fixed-window.ts)\<close>

text \<open>
  \<open>limit\<close> and \<open>windowSec\<close> are integers, \<open>windowSec\<close> positive. \<open>now\<close> is the value of
  \<^verbatim>\<open>Date.now()\<close> in milliseconds.
\<close>

definition windowStart :: "int \<Rightarrow> int \<Rightarrow> int" where
  "windowStart windowSec nowMs =
     (let now = nowMs div 1000 in (now div windowSec) * windowSec)"

definition windowKey :: "string \<Rightarrow> int \<Rightarrow> int \<Rightarrow> string" where
  "windowKey baseKey windowSec nowMs = baseKey @ '':'' @ show_int (windowStart windowSec nowMs)"

definition secondsUntilWindowEnd :: "int \<Rightarrow> int \<Rightarrow> int" where
  "secondsUntilWindowEnd windowSec nowMs =
     (let now = (of_int nowMs :: real) / 1000;
          wStart = of_int \<lfloor>now / of_int windowSec\<rfloor> * of_int windowSec
      in \<lceil>wStart + of_int windowSec - now\<rceil>)"

text \<open>
  \<open>fw_limit\<close>: \<open>now\<close> is the clock read by \<open>windowKey\<close> (the store runs the two commands
  at that time), \<open>now2\<close> the later one read by \<open>secondsUntilWindowEnd\<close>.
\<close>

definition fw_limit :: "int \<Rightarrow> int \<Rightarrow> string \<Rightarrow> int \<times> int \<Rightarrow> store \<Rightarrow> redis_error + (RateLimitResult \<times> store)" where
  "fw_limit lmt windowSec key clock s =
     (let (now, now2) = clock;
          wKey = windowKey key windowSec now
      in case redis_incr s now wKey of
           Inl e \<Rightarrow> Inl e
         | Inr (count, s1) \<Rightarrow>
             let s2 = (if count = 1 then redis_expire s1 now wKey windowSec else s1);
                 ok = (count \<le> lmt)
             in Inr (\<lparr>allowed = ok,
                      remaining = max 0 (lmt - count),
                      limit = lmt,
                      retryAfter = (if ok then 0 else secondsUntilWindowEnd windowSec now2)\<rparr>,
                     s2))"

text \<open>\<open>fw_peek\<close>: an absent key and the empty string count as 0; a value that
  \<^verbatim>\<open>parseInt\<close> reads as NaN gives no result here (\<open>Inl NotAnInteger\<close>).\<close>

definition fw_peek :: "int \<Rightarrow> int \<Rightarrow> string \<Rightarrow> int \<times> int \<Rightarrow> store \<Rightarrow> redis_error + (RateLimitResult \<times> store)" where
  "fw_peek lmt windowSec key clock s =
     (let (now, now2) = clock;
          wKey = windowKey key windowSec now
      in case redis_get s now wKey of
           Inl e \<Rightarrow> Inl e
         | Inr raw \<Rightarrow>
             (case (case raw of None \<Rightarrow> Some 0
                              | Some r \<Rightarrow> if r = [] then Some 0 else parseInt10 r) of
                None \<Rightarrow> Inl NotAnInteger
              | Some count \<Rightarrow>
                  let ok = (count < lmt)
                  in Inr (\<lparr>allowed = ok,
                           remaining = max 0 (lmt - count),
                           limit = lmt,
                           retryAfter = (if ok then 0 else secondsUntilWindowEnd windowSec now2)\<rparr>,
                          s)))"

definition fw_reset :: "int \<Rightarrow> string \<Rightarrow> int \<Rightarrow> store \<Rightarrow> store" where
  "fw_reset windowSec key now s = snd (redis_del s now (windowKey key windowSec now))"

section \<open>Sorted sets\<close>

text \<open>
  A sorted set is a list of (member, score) pairs with distinct members; the commands
  below do not depend on its order. Redis removes a sorted set that becomes empty.
\<close>

text \<open>\<^verbatim>\<open>ZREMRANGEBYSCORE key -inf hi\<close>: drops every member whose score is at most \<open>hi\<close>.\<close>

definition redis_zremrangebyscore :: "store \<Rightarrow> int \<Rightarrow> string \<Rightarrow> int \<Rightarrow> redis_error + (nat \<times> store)" where
  "redis_zremrangebyscore s now k hi =
     (case live s now k of
        None \<Rightarrow> Inr (0, s)
      | Some e \<Rightarrow>
          (case val e of
             RZSet xs \<Rightarrow>
               let keep = filter (\<lambda>p. \<not> snd p \<le> hi) xs
               in Inr (length xs - length keep,
                       if keep = [] then s(k := None) else s(k \<mapsto> e\<lparr>val := RZSet keep\<rparr>))
           | _ \<Rightarrow> Inl WRONGTYPE))"

definition redis_zcard :: "store \<Rightarrow> int \<Rightarrow> string \<Rightarrow> redis_error + nat" where
  "redis_zcard s now k =
     (case live s now k of
        None \<Rightarrow> Inr 0
      | Some e \<Rightarrow> (case val e of RZSet xs \<Rightarrow> Inr (length xs) | _ \<Rightarrow> Inl WRONGTYPE))"

text \<open>\<^verbatim>\<open>ZADD key score member\<close>: a member already present only has its score replaced.\<close>

definition redis_zadd :: "store \<Rightarrow> int \<Rightarrow> string \<Rightarrow> int \<Rightarrow> string \<Rightarrow> redis_error + store" where
  "redis_zadd s now k score member =
     (case live s now k of
        None \<Rightarrow> Inr (s(k \<mapsto> \<lparr>val = RZSet [(member, score)], expireAt = None\<rparr>))
      | Some e \<Rightarrow>
          (case val e of
             RZSet xs \<Rightarrow>
               Inr (s(k \<mapsto> e\<lparr>val := RZSet ((member, score) # filter (\<lambda>p. fst p \<noteq> member) xs)\<rparr>))
           | _ \<Rightarrow> Inl WRONGTYPE))"

section \<open>Sliding window strategy (scripts/sliding-window.lua, strategies/sliding-window.ts)\<close>

text \<open>
  The script runs as one step of the store. \<open>KEYS[1]\<close> is \<open>key\<close>; \<open>ARGV[1..5]\<close> are the
  window start, the current time, the limit, the request id and the TTL in seconds.
  It returns \<open>(allowed, count)\<close>. A failing \<open>redis.call\<close> aborts the script.
\<close>

definition sliding_window_script ::
  "store \<Rightarrow> int \<Rightarrow> string \<Rightarrow> int \<Rightarrow> int \<Rightarrow> int \<Rightarrow> string \<Rightarrow> int \<Rightarrow> redis_error + ((int \<times> int) \<times> store)" where
  "sliding_window_script s clock key argv1 argv2 argv3 argv4 argv5 =
     (case redis_zremrangebyscore s clock key argv1 of
        Inl e \<Rightarrow> Inl e
      | Inr (_, s1) \<Rightarrow>
          (case redis_zcard s1 clock key of
             Inl e \<Rightarrow> Inl e
           | Inr count \<Rightarrow>
               (case (if int count < argv3
                      then (case redis_zadd s1 clock key argv2 argv4 of
                              Inl e \<Rightarrow> Inl e
                            | Inr s2 \<Rightarrow> Inr (1, int count + 1, s2))
                      else Inr (0, int count, s1)) of
                  Inl e \<Rightarrow> Inl e
                | Inr (ok, count', s3) \<Rightarrow>
                    Inr ((ok, count'), redis_expire s3 clock key argv5))))"

text \<open>\<open>requestId\<close>: \<open>rnd\<close> is \<^verbatim>\<open>Math.random().toString(36).slice(2, 10)\<close>, an input here.\<close>

definition requestId :: "int \<Rightarrow> string \<Rightarrow> string" where
  "requestId nowMs rnd = show_int nowMs @ '':'' @ rnd"

text \<open>\<open>sw_limit\<close>: the call observes the clock value \<open>nowMs\<close> and draws \<open>rnd\<close>.\<close>

definition sw_limit :: "int \<Rightarrow> int \<Rightarrow> string \<Rightarrow> int \<times> string \<Rightarrow> store \<Rightarrow> redis_error + (RateLimitResult \<times> store)" where
  "sw_limit lmt windowSec key obs s =
     (let (nowMs, rnd) = obs;
          windowMs = windowSec * 1000;
          wStart = nowMs - windowMs
      in case sliding_window_script s nowMs key wStart nowMs lmt (requestId nowMs rnd) windowSec of
           Inl e \<Rightarrow> Inl e
         | Inr ((ok, count), s1) \<Rightarrow>
             Inr (\<lparr>allowed = (ok = 1),
                      remaining = max 0 (lmt - count),
                      limit = lmt,
                      retryAfter = (if ok = 1 then 0 else windowSec)\<rparr>,
                     s1))"

text \<open>
  \<open>sw_peek\<close>: a pipeline of two commands. A pipeline does not raise on a failing
  command: its reply slot holds the error and no result, and \<^verbatim>\<open>?? 0\<close> makes the count 0.
\<close>

definition sw_peek :: "int \<Rightarrow> int \<Rightarrow> string \<Rightarrow> int \<Rightarrow> store \<Rightarrow> RateLimitResult \<times> store" where
  "sw_peek lmt windowSec key nowMs s =
     (let windowMs = windowSec * 1000;
          wStart = nowMs - windowMs;
          s1 = (case redis_zremrangebyscore s nowMs key wStart of Inl e \<Rightarrow> s | Inr (_, s') \<Rightarrow> s');
          count = (case redis_zcard s1 nowMs key of Inl e \<Rightarrow> 0 | Inr n \<Rightarrow> int n);
          ok = (count < lmt)
      in (\<lparr>allowed = ok,
           remaining = max 0 (lmt - count),
           limit = lmt,
           retryAfter = (if ok then 0 else windowSec)\<rparr>,
          s1))"

definition sw_reset :: "string \<Rightarrow> int \<Rightarrow> store \<Rightarrow> store" where
  "sw_reset key now s = snd (redis_del s now key)"

section \<open>Hashes\<close>

text \<open>\<^verbatim>\<open>HGET key field\<close>: \<open>None\<close> when the key or the field is absent.\<close>

definition redis_hget :: "store \<Rightarrow> int \<Rightarrow> string \<Rightarrow> string \<Rightarrow> redis_error + real option" where
  "redis_hget s now k field =
     (case live s now k of
        None \<Rightarrow> Inr None
      | Some e \<Rightarrow> (case val e of RHash fs \<Rightarrow> Inr (map_of fs field) | _ \<Rightarrow> Inl WRONGTYPE))"

text \<open>\<^verbatim>\<open>HSET key field v\<close>: the other fields and the expiry of a live key are kept.\<close>

definition redis_hset :: "store \<Rightarrow> int \<Rightarrow> string \<Rightarrow> string \<Rightarrow> real \<Rightarrow> redis_error + store" where
  "redis_hset s now k field v =
     (case live s now k of
        None \<Rightarrow> Inr (s(k \<mapsto> \<lparr>val = RHash [(field, v)], expireAt = None\<rparr>))
      | Some e \<Rightarrow>
          (case val e of
             RHash fs \<Rightarrow> Inr (s(k \<mapsto> e\<lparr>val := RHash ((field, v) # filter (\<lambda>p. fst p \<noteq> field) fs)\<rparr>))
           | _ \<Rightarrow> Inl WRONGTYPE))"

section \<open>Token bucket strategy (scripts/token-bucket.lua, strategies/token-bucket.ts)\<close>

text \<open>
  The script runs as one step of the store, at the store's time \<open>clock\<close>. \<open>KEYS[1]\<close> is
  \<open>key\<close>; \<open>ARGV[1..4]\<close> are the capacity, the refill rate (tokens per second), the
  caller's current time in milliseconds and the consume flag. It returns
  \<open>(allowed, \<lfloor>tokens\<rfloor>)\<close>. Arithmetic on a missing \<open>last_refill\<close> is a script error.

  With a refill rate of 0 the quotient \<^verbatim>\<open>capacity / refill_rate\<close> is infinite or not a number,
  so is the TTL, and \<^verbatim>\<open>EXPIRE\<close> refuses it (\<^verbatim>\<open>value is not an integer or out of range\<close>): the
  script raises after its \<^verbatim>\<open>HSET\<close>. A result \<open>Inl e\<close> carries the error alone, not the
  writes the script made before it.

  Numbers are the script's doubles taken as reals, and \<^verbatim>\<open>tostring\<close> (which keeps 14
  significant digits of the stored \<open>tokens\<close>) as the identity. Two computations of a token
  count that agree over the reals can differ in the script, so only bounds on the stored
  token count are stated for this strategy, and no equation between two runs.
\<close>

definition token_bucket_script ::
  "store \<Rightarrow> int \<Rightarrow> string \<Rightarrow> real \<Rightarrow> real \<Rightarrow> int \<Rightarrow> bool \<Rightarrow> redis_error + ((int \<times> int) \<times> store)" where
  "token_bucket_script s clock key capacity refill_rate now_ms consume =
     (case redis_hget s clock key ''tokens'' of
        Inl e \<Rightarrow> Inl e
      | Inr tokens0 \<Rightarrow>
     (case redis_hget s clock key ''last_refill'' of
        Inl e \<Rightarrow> Inl e
      | Inr last0 \<Rightarrow>
     (case (case tokens0 of
              None \<Rightarrow> Some (capacity, of_int now_ms)
            | Some t \<Rightarrow> (case last0 of None \<Rightarrow> None | Some l \<Rightarrow> Some (t, l))) of
        None \<Rightarrow> Inl ScriptError
      | Some (tokens1, last_refill1) \<Rightarrow>
          let elapsed_ms = of_int now_ms - last_refill1;
              refill = (elapsed_ms / 1000) * refill_rate;
              tokens2 = min capacity (tokens1 + refill);
              last_refill2 = of_int now_ms;
              (ok, tokens3) =
                 (if consume
                  then (if tokens2 \<ge> 1 then (1, tokens2 - 1) else (0, tokens2))
                  else (if tokens2 \<ge> 1 then (1, tokens2) else (0, tokens2)))
          in (case redis_hset s clock key ''tokens'' tokens3 of
                Inl e \<Rightarrow> Inl e
              | Inr s1 \<Rightarrow>
             (case redis_hset s1 clock key ''last_refill'' last_refill2 of
                Inl e \<Rightarrow> Inl e
              | Inr s2 \<Rightarrow>
                  if refill_rate = 0 then Inl NotAnInteger
                  else
                    let ttl = \<lceil>capacity / refill_rate\<rceil> + 10
                    in Inr ((ok, \<lfloor>tokens3\<rfloor>), redis_expire s2 clock key ttl))))))"

text \<open>\<open>run\<close> of \<open>createTokenBucket\<close>: \<open>capacity\<close> is an integer, \<open>refillRate\<close> a
  number; the call observes the clock value \<open>nowMs\<close>.\<close>

definition tb_run :: "int \<Rightarrow> real \<Rightarrow> string \<Rightarrow> int \<Rightarrow> bool \<Rightarrow> store \<Rightarrow> redis_error + (RateLimitResult \<times> store)" where
  "tb_run capacity refillRate key nowMs consume s =
     (case token_bucket_script s nowMs key (of_int capacity) refillRate nowMs consume of
        Inl e \<Rightarrow> Inl e
      | Inr ((ok, rem), s1) \<Rightarrow>
          let retry = (if ok = 1 then 0 else \<lceil>1 / refillRate\<rceil>)
          in Inr (\<lparr>allowed = (ok = 1),
                   remaining = rem,
                   limit = capacity,
                   retryAfter = retry\<rparr>,
                  s1))"

definition tb_limit :: "int \<Rightarrow> real \<Rightarrow> string \<Rightarrow> int \<Rightarrow> store \<Rightarrow> redis_error + (RateLimitResult \<times> store)" where
  "tb_limit capacity refillRate key nowMs s = tb_run capacity refillRate key nowMs True s"

definition tb_peek :: "int \<Rightarrow> real \<Rightarrow> string \<Rightarrow> int \<Rightarrow> store \<Rightarrow> redis_error + (RateLimitResult \<times> store)" where
  "tb_peek capacity refillRate key nowMs s = tb_run capacity refillRate key nowMs False s"

definition tb_reset :: "string \<Rightarrow> int \<Rightarrow> store \<Rightarrow> store" where
  "tb_reset key now s = snd (redis_del s now key)"

text \<open>An operation of a sequence: the clock value it observes, and whether it is a
  \<open>limit\<close> (\<open>True\<close>) or a \<open>peek\<close> (\<open>False\<close>).\<close>

definition tb_op :: "int \<Rightarrow> real \<Rightarrow> string \<Rightarrow> int \<times> bool \<Rightarrow> store \<Rightarrow> redis_error + (RateLimitResult \<times> store)" where
  "tb_op capacity refillRate key op s =
     (if snd op then tb_limit capacity refillRate key (fst op) s
      else tb_peek capacity refillRate key (fst op) s)"

text \<open>The stored bucket \<open>(tokens, last_refill)\<close> of a key, as the script would read it.\<close>

definition bucket_state :: "store \<Rightarrow> int \<Rightarrow> string \<Rightarrow> (real \<times> real) option" where
  "bucket_state s now key =
     (case (redis_hget s now key ''tokens'', redis_hget s now key ''last_refill'') of
        (Inr (Some tok), Inr (Some lr)) \<Rightarrow> Some (tok, lr)
      | _ \<Rightarrow> None)"

text \<open>The stores after each call of a sequence, up to the first failure.\<close>

fun run_states :: "('a \<Rightarrow> store \<Rightarrow> 'e + ('r \<times> store)) \<Rightarrow> 'a list \<Rightarrow> store \<Rightarrow> store list" where
  "run_states f [] s = []"
| "run_states f (a # as) s =
     (case f a s of
        Inl e \<Rightarrow> []
      | Inr (r, s1) \<Rightarrow> s1 # run_states f as s1)"

text \<open>
  The record the script leaves under a key when the refill rate is not 0: the two
  fields, and the expiry \<open>\<lceil>capacity / refill_rate\<rceil> + 10\<close> seconds after the write.
\<close>

definition tb_ttl :: "int \<Rightarrow> real \<Rightarrow> int" where
  "tb_ttl capacity refillRate = \<lceil>of_int capacity / refillRate\<rceil> + 10"

definition bucket_entry :: "real \<Rightarrow> real \<Rightarrow> int \<Rightarrow> entry" where
  "bucket_entry tok lr e = \<lparr>val = RHash [(''last_refill'', lr), (''tokens'', tok)], expireAt = Some e\<rparr>"

text \<open>
  \<open>tb_wf capacity refillRate key s t\<close>: the key was never written, or holds the record
  a run of the script at some time \<open>t0 \<le> t\<close> left, with \<open>0 \<le> tokens \<le> capacity\<close>.
\<close>

definition tb_wf :: "int \<Rightarrow> real \<Rightarrow> string \<Rightarrow> store \<Rightarrow> int \<Rightarrow> bool" where
  "tb_wf capacity refillRate key s t =
     (case s key of
        None \<Rightarrow> True
      | Some e \<Rightarrow>
          (case val e of
             RHash fs \<Rightarrow>
               (case (map_of fs ''tokens'', map_of fs ''last_refill'') of
                  (Some tok, Some lr) \<Rightarrow>
                    e = bucket_entry tok lr (\<lfloor>lr\<rfloor> + tb_ttl capacity refillRate * 1000) \<and>
                    lr = of_int \<lfloor>lr\<rfloor> \<and> \<lfloor>lr\<rfloor> \<le> t \<and> 0 \<le> tok \<and> tok \<le> of_int capacity
                | _ \<Rightarrow> False)
           | _ \<Rightarrow> False))"

section \<open>Sequences of peeks\<close>

text \<open>\<open>sw_peek\<close> as a call that never fails, for \<open>run_calls\<close>.\<close>

definition sw_peek_call :: "int \<Rightarrow> int \<Rightarrow> string \<Rightarrow> int \<Rightarrow> store \<Rightarrow> redis_error + (RateLimitResult \<times> store)" where
  "sw_peek_call lmt windowSec key nowMs s = Inr (sw_peek lmt windowSec key nowMs s)"

text \<open>The result of a call alone, without the store it leaves.\<close>

definition outcome :: "'e + ('r \<times> store) \<Rightarrow> 'e + 'r" where
  "outcome x = (case x of Inl e \<Rightarrow> Inl e | Inr (r, s) \<Rightarrow> Inr r)"

section \<open>The RateLimiter class (rate-limiter/index.ts, utils/key.ts)\<close>

definition prefixKey :: "string \<Rightarrow> string \<Rightarrow> string" where
  "prefixKey pre key = pre @ '':'' @ key"

text \<open>
  The configuration object as the constructor finds it at run time: the discriminant is
  a string, and the type \<open>RateLimiterConfig\<close> admits the three below. The fields a
  strategy does not read are ignored.
\<close>

record RateLimiterConfig =
  cfg_prefix :: "string option"
  cfg_strategy :: string
  cfg_limit :: int
  cfg_window :: int
  cfg_capacity :: int
  cfg_refillRate :: real

text \<open>The strategy object the constructor stores: one case per algorithm.\<close>

datatype RateLimitStrategy =
    FixedWindow int int
  | SlidingWindow int int
  | TokenBucket int real

text \<open>An instance: \<open>strategy = None\<close> is the field left \<^verbatim>\<open>undefined\<close>.\<close>

record RateLimiter =
  strategy :: "RateLimitStrategy option"
  prefix :: string

datatype js_error =
    TypeError
  | SyntaxError
  | StoreError redis_error
  | LoaderError string

text \<open>The constructor: a \<^verbatim>\<open>switch\<close> on the discriminant with no \<^verbatim>\<open>default\<close> case. The result
  type has a place for a raised error; no branch produces one.\<close>

definition RateLimiter_new :: "RateLimiterConfig \<Rightarrow> js_error + RateLimiter" where
  "RateLimiter_new config =
     (let pre = (case cfg_prefix config of None \<Rightarrow> ''rl'' | Some p \<Rightarrow> p);
          strat =
            (if cfg_strategy config = ''fixed-window''
               then Some (FixedWindow (cfg_limit config) (cfg_window config))
             else if cfg_strategy config = ''sliding-window''
               then Some (SlidingWindow (cfg_limit config) (cfg_window config))
             else if cfg_strategy config = ''token-bucket''
               then Some (TokenBucket (cfg_capacity config) (cfg_refillRate config))
             else None)
      in Inr \<lparr>strategy = strat, prefix = pre\<rparr>)"

text \<open>What one call observes: the clock when it starts, the clock at a second reading
  (fixed window), and the random suffix it draws (sliding window).\<close>

record observation =
  ob_now :: int
  ob_now2 :: int
  ob_rnd :: string

definition store_error :: "redis_error + 'a \<Rightarrow> js_error + 'a" where
  "store_error x = (case x of Inl e \<Rightarrow> Inl (StoreError e) | Inr a \<Rightarrow> Inr a)"

text \<open>\<open>limit\<close>, \<open>peek\<close> and \<open>reset\<close> forward to \<^verbatim>\<open>this.strategy\<close>; reading a method of
  \<^verbatim>\<open>undefined\<close> raises a TypeError.\<close>

definition rl_limit :: "RateLimiter \<Rightarrow> string \<Rightarrow> observation \<Rightarrow> store \<Rightarrow> js_error + (RateLimitResult \<times> store)" where
  "rl_limit rl key ob s =
     (case strategy rl of
        None \<Rightarrow> Inl TypeError
      | Some (FixedWindow lmt windowSec) \<Rightarrow>
          store_error (fw_limit lmt windowSec (prefixKey (prefix rl) key) (ob_now ob, ob_now2 ob) s)
      | Some (SlidingWindow lmt windowSec) \<Rightarrow>
          store_error (sw_limit lmt windowSec (prefixKey (prefix rl) key) (ob_now ob, ob_rnd ob) s)
      | Some (TokenBucket capacity refillRate) \<Rightarrow>
          store_error (tb_limit capacity refillRate (prefixKey (prefix rl) key) (ob_now ob) s))"

definition rl_peek :: "RateLimiter \<Rightarrow> string \<Rightarrow> observation \<Rightarrow> store \<Rightarrow> js_error + (RateLimitResult \<times> store)" where
  "rl_peek rl key ob s =
     (case strategy rl of
        None \<Rightarrow> Inl TypeError
      | Some (FixedWindow lmt windowSec) \<Rightarrow>
          store_error (fw_peek lmt windowSec (prefixKey (prefix rl) key) (ob_now ob, ob_now2 ob) s)
      | Some (SlidingWindow lmt windowSec) \<Rightarrow>
          Inr (sw_peek lmt windowSec (prefixKey (prefix rl) key) (ob_now ob) s)
      | Some (TokenBucket capacity refillRate) \<Rightarrow>
          store_error (tb_peek capacity refillRate (prefixKey (prefix rl) key) (ob_now ob) s))"

definition rl_reset :: "RateLimiter \<Rightarrow> string \<Rightarrow> observation \<Rightarrow> store \<Rightarrow> js_error + store" where
  "rl_reset rl key ob s =
     (case strategy rl of
        None \<Rightarrow> Inl TypeError
      | Some (FixedWindow lmt windowSec) \<Rightarrow>
          Inr (fw_reset windowSec (prefixKey (prefix rl) key) (ob_now ob) s)
      | Some (SlidingWindow lmt windowSec) \<Rightarrow>
          Inr (sw_reset (prefixKey (prefix rl) key) (ob_now ob) s)
      | Some (TokenBucket capacity refillRate) \<Rightarrow>
          Inr (tb_reset (prefixKey (prefix rl) key) (ob_now ob) s))"

text \<open>The discriminants the type \<open>RateLimiterConfig\<close> admits.\<close>

definition known_strategy :: "string \<Rightarrow> bool" where
  "known_strategy d = (d = ''fixed-window'' \<or> d = ''sliding-window'' \<or> d = ''token-bucket'')"

section \<open>String commands used by the cache\<close>

text \<open>\<^verbatim>\<open>SET key v\<close>: replaces whatever the key held and clears its expiry.\<close>

definition redis_set :: "store \<Rightarrow> int \<Rightarrow> string \<Rightarrow> string \<Rightarrow> store" where
  "redis_set s now k v = s(k \<mapsto> \<lparr>val = RStr v, expireAt = None\<rparr>)"

text \<open>\<^verbatim>\<open>SET key v EX seconds\<close>: the expiry must be positive.\<close>

definition redis_set_ex :: "store \<Rightarrow> int \<Rightarrow> string \<Rightarrow> string \<Rightarrow> int \<Rightarrow> redis_error + store" where
  "redis_set_ex s now k v secs =
     (if secs \<le> 0 then Inl InvalidExpire
      else Inr (s(k \<mapsto> \<lparr>val = RStr v, expireAt = Some (now + secs * 1000)\<rparr>)))"

text \<open>\<^verbatim>\<open>SET key v EX seconds NX\<close>: writes only when the key is absent; \<open>True\<close> is the
  reply \<^verbatim>\<open>"OK"\<close>, \<open>False\<close> the null reply.\<close>

definition redis_set_nx_ex :: "store \<Rightarrow> int \<Rightarrow> string \<Rightarrow> string \<Rightarrow> int \<Rightarrow> redis_error + (bool \<times> store)" where
  "redis_set_nx_ex s now k v secs =
     (if secs \<le> 0 then Inl InvalidExpire
      else (case live s now k of
              None \<Rightarrow> Inr (True, s(k \<mapsto> \<lparr>val = RStr v, expireAt = Some (now + secs * 1000)\<rparr>))
            | Some e \<Rightarrow> Inr (False, s)))"

definition redis_exists :: "store \<Rightarrow> int \<Rightarrow> string \<Rightarrow> nat" where
  "redis_exists s now k = (if live s now k = None then 0 else 1)"

text \<open>\<^verbatim>\<open>DEL k1 k2 ...\<close>\<close>

fun redis_del_many :: "store \<Rightarrow> int \<Rightarrow> string list \<Rightarrow> nat \<times> store" where
  "redis_del_many s now [] = (0, s)"
| "redis_del_many s now (k # ks) =
     (let (n, s1) = redis_del s now k;
          (m, s2) = redis_del_many s1 now ks
      in (n + m, s2))"

section \<open>The Cache class (cache/index.ts)\<close>

text \<open>
  A JavaScript value is \<open>'v option\<close>: \<open>None\<close> is \<^verbatim>\<open>null\<close>, \<open>Some x\<close> any other value. An
  instance holds the prefix (default \<^verbatim>\<open>"cache"\<close>), the default TTL in seconds if any, and
  the serializer pair (default \<^verbatim>\<open>JSON.stringify\<close> and \<^verbatim>\<open>JSON.parse\<close>); a deserializer may
  raise.
\<close>

record 'v Cache =
  c_prefix :: string
  c_defaultTTL :: "int option"
  c_serialize :: "'v option \<Rightarrow> string"
  c_deserialize :: "string \<Rightarrow> js_error + 'v option"

text \<open>\<^verbatim>\<open>JSON.stringify\<close> and \<^verbatim>\<open>JSON.parse\<close> on \<^verbatim>\<open>null\<close>, the booleans and the integers.\<close>

datatype jatom = JBool bool | JNum int

definition JSON_stringify :: "jatom option \<Rightarrow> string" where
  "JSON_stringify v =
     (case v of
        None \<Rightarrow> ''null''
      | Some (JBool b) \<Rightarrow> (if b then ''true'' else ''false'')
      | Some (JNum n) \<Rightarrow> show_int n)"

definition JSON_parse :: "string \<Rightarrow> js_error + jatom option" where
  "JSON_parse raw =
     (if raw = ''null'' then Inr None
      else if raw = ''true'' then Inr (Some (JBool True))
      else if raw = ''false'' then Inr (Some (JBool False))
      else (case redis_int raw of
              Some n \<Rightarrow> Inr (Some (JNum n))
            | None \<Rightarrow> Inl SyntaxError))"

text \<open>\<^verbatim>\<open>new Cache({ redis })\<close> on these values.\<close>

definition default_cache :: "jatom Cache" where
  "default_cache = \<lparr>c_prefix = ''cache'', c_defaultTTL = None,
                     c_serialize = JSON_stringify, c_deserialize = JSON_parse\<rparr>"

definition cache_key :: "'v Cache \<Rightarrow> string \<Rightarrow> string" where
  "cache_key c key = prefixKey (c_prefix c) key"

definition cache_get :: "'v Cache \<Rightarrow> string \<Rightarrow> int \<Rightarrow> store \<Rightarrow> js_error + 'v option" where
  "cache_get c key now s =
     (case redis_get s now (cache_key c key) of
        Inl e \<Rightarrow> Inl (StoreError e)
      | Inr None \<Rightarrow> Inr None
      | Inr (Some raw) \<Rightarrow> c_deserialize c raw)"

definition cache_set :: "'v Cache \<Rightarrow> string \<Rightarrow> 'v option \<Rightarrow> int option \<Rightarrow> int \<Rightarrow> store \<Rightarrow> js_error + store" where
  "cache_set c key v ttl now s =
     (let effectiveTTL = (case ttl of None \<Rightarrow> c_defaultTTL c | Some t \<Rightarrow> Some t);
          serialized = c_serialize c v
      in case effectiveTTL of
           Some t \<Rightarrow> store_error (redis_set_ex s now (cache_key c key) serialized t)
         | None \<Rightarrow> Inr (redis_set s now (cache_key c key) serialized))"

definition cache_delete :: "'v Cache \<Rightarrow> string \<Rightarrow> int \<Rightarrow> store \<Rightarrow> bool \<times> store" where
  "cache_delete c key now s =
     (let (removed, s1) = redis_del s now (cache_key c key) in (removed = 1, s1))"

definition cache_has :: "'v Cache \<Rightarrow> string \<Rightarrow> int \<Rightarrow> store \<Rightarrow> bool" where
  "cache_has c key now s = (redis_exists s now (cache_key c key) = 1)"

text \<open>What a loader does when called: it returns a value or raises.\<close>

datatype 'v loaded = Returns "'v option" | Raises string

text \<open>\<open>getOrSet\<close>: the \<open>get\<close> runs at time \<open>t1\<close>, the \<open>set\<close> at \<open>t2\<close>. The last component
  counts the calls of the loader.\<close>

definition cache_getOrSet ::
  "'v Cache \<Rightarrow> string \<Rightarrow> 'v loaded \<Rightarrow> int option \<Rightarrow> int \<times> int \<Rightarrow> store \<Rightarrow> (js_error + 'v option) \<times> store \<times> nat" where
  "cache_getOrSet c key loader ttl clock s =
     (let (t1, t2) = clock
      in case cache_get c key t1 s of
           Inl e \<Rightarrow> (Inl e, s, 0)
         | Inr (Some cached) \<Rightarrow> (Inr (Some cached), s, 0)
         | Inr None \<Rightarrow>
             (case loader of
                Raises e \<Rightarrow> (Inl (LoaderError e), s, 1)
              | Returns v \<Rightarrow>
                  (case cache_set c key v ttl t2 s of
                     Inl e \<Rightarrow> (Inl e, s, 1)
                   | Inr s1 \<Rightarrow> (Inr v, s1, 1))))"

text \<open>The batched variants are pipelines: a command that fails leaves its reply slot
  with the error and the others run. \<open>getMany\<close> is modelled as raising on such a slot.\<close>

fun cache_getMany :: "'v Cache \<Rightarrow> string list \<Rightarrow> int \<Rightarrow> store \<Rightarrow> js_error + (string \<times> 'v option) list" where
  "cache_getMany c [] now s = Inr []"
| "cache_getMany c (k # ks) now s =
     (case cache_get c k now s of
        Inl e \<Rightarrow> Inl e
      | Inr v \<Rightarrow> (case cache_getMany c ks now s of
                    Inl e \<Rightarrow> Inl e
                  | Inr m \<Rightarrow> Inr ((k, v) # m)))"

fun cache_setMany :: "'v Cache \<Rightarrow> (string \<times> 'v option \<times> int option) list \<Rightarrow> int \<Rightarrow> store \<Rightarrow> store" where
  "cache_setMany c [] now s = s"
| "cache_setMany c ((k, v, ttl) # es) now s =
     (case cache_set c k v ttl now s of
        Inl e \<Rightarrow> cache_setMany c es now s
      | Inr s1 \<Rightarrow> cache_setMany c es now s1)"

definition cache_deleteMany :: "'v Cache \<Rightarrow> string list \<Rightarrow> int \<Rightarrow> store \<Rightarrow> nat \<times> store" where
  "cache_deleteMany c keys now s = redis_del_many s now (map (cache_key c) keys)"

section \<open>getOrSetSafe, one store command at a time (cache/index.ts, lines 124-170)\<close>

record GetOrSetSafeOptions =
  opt_ttl :: "int option"
  opt_lockTTL :: "int option"
  opt_waitTimeout :: "int option"
  opt_retryInterval :: "int option"

definition lock_key :: "'v Cache \<Rightarrow> string \<Rightarrow> string" where
  "lock_key c key = cache_key c key @ '':lock''"

text \<open>
  Where a call of \<open>getOrSetSafe\<close> stands between two of its \<^verbatim>\<open>await\<close>s:
  \<^item> \<open>Start\<close>: the first \<open>get\<close> is in flight (line 130);
  \<^item> \<open>TryLock\<close>: cache miss, \<^verbatim>\<open>SET lockKey "1" EX lockTTL NX\<close> is in flight (line 142);
  \<^item> \<open>Loading\<close>: the lock was acquired and the loader was called (line 147);
  \<^item> \<open>HolderSet v\<close>: the loader returned \<open>v\<close>, \<open>set\<close> is in flight (line 148);
  \<^item> \<open>Release r\<close>: in \<^verbatim>\<open>finally\<close>, \<^verbatim>\<open>DEL lockKey\<close> is in flight (line 152), \<open>r\<close> is what the
    \<^verbatim>\<open>try\<close> block returned or raised;
  \<^item> \<open>Sleeping deadline wake\<close>: in \<^verbatim>\<open>sleep(retryInterval)\<close> until \<open>wake\<close> (line 160);
  \<^item> \<open>Poll deadline\<close>: a \<open>get\<close> of the wait loop is in flight (line 161);
  \<^item> \<open>FallbackLoading\<close>: the wait timed out and the loader was called (line 167);
  \<^item> \<open>FallbackSet v\<close>: that loader returned \<open>v\<close>, \<open>set\<close> is in flight (line 168);
  \<^item> \<open>Done r\<close>: the call returned (\<open>Inr\<close>) or raised (\<open>Inl\<close>).
\<close>

datatype 'v pc =
    Start
  | TryLock
  | Loading
  | HolderSet "'v option"
  | Release "js_error + 'v option"
  | Sleeping int int
  | Poll int
  | FallbackLoading
  | FallbackSet "'v option"
  | Done "js_error + 'v option"

text \<open>
  One step of a call at time \<open>now\<close>: the store command in flight runs, or the timer or
  the loader completes (\<open>lo\<close> is what the loader does), and the call runs on to its next
  \<^verbatim>\<open>await\<close>. The third component is 1 when this step calls the loader.
\<close>

definition gos_step ::
  "'v Cache \<Rightarrow> string \<Rightarrow> GetOrSetSafeOptions \<Rightarrow> 'v loaded \<Rightarrow> int \<Rightarrow> 'v pc \<Rightarrow> store \<Rightarrow> 'v pc \<times> store \<times> nat" where
  "gos_step c key options lo now p s =
     (let ttl = opt_ttl options;
          lockTTL = (case opt_lockTTL options of None \<Rightarrow> 10 | Some x \<Rightarrow> x);
          waitTimeout = (case opt_waitTimeout options of None \<Rightarrow> 5000 | Some x \<Rightarrow> x);
          retryInterval = (case opt_retryInterval options of None \<Rightarrow> 50 | Some x \<Rightarrow> x);
          lockKey = lock_key c key
      in case p of
           Start \<Rightarrow>
             (case cache_get c key now s of
                Inl e \<Rightarrow> (Done (Inl e), s, 0)
              | Inr (Some cached) \<Rightarrow> (Done (Inr (Some cached)), s, 0)
              | Inr None \<Rightarrow> (TryLock, s, 0))
         | TryLock \<Rightarrow>
             (case redis_set_nx_ex s now lockKey ''1'' lockTTL of
                Inl e \<Rightarrow> (Done (Inl (StoreError e)), s, 0)
              | Inr (acquired, s1) \<Rightarrow>
                  if acquired then (Loading, s1, 1)
                  else let deadline = now + waitTimeout
                       in if now < deadline then (Sleeping deadline (now + retryInterval), s1, 0)
                          else (FallbackLoading, s1, 1))
         | Loading \<Rightarrow>
             (case lo of
                Returns v \<Rightarrow> (HolderSet v, s, 0)
              | Raises e \<Rightarrow> (Release (Inl (LoaderError e)), s, 0))
         | HolderSet v \<Rightarrow>
             (case cache_set c key v ttl now s of
                Inl e \<Rightarrow> (Release (Inl e), s, 0)
              | Inr s1 \<Rightarrow> (Release (Inr v), s1, 0))
         | Release r \<Rightarrow> (Done r, snd (redis_del s now lockKey), 0)
         | Sleeping deadline wake \<Rightarrow>
             if now < wake then (Sleeping deadline wake, s, 0) else (Poll deadline, s, 0)
         | Poll deadline \<Rightarrow>
             (case cache_get c key now s of
                Inl e \<Rightarrow> (Done (Inl e), s, 0)
              | Inr (Some v) \<Rightarrow> (Done (Inr (Some v)), s, 0)
              | Inr None \<Rightarrow>
                  if now < deadline then (Sleeping deadline (now + retryInterval), s, 0)
                  else (FallbackLoading, s, 1))
         | FallbackLoading \<Rightarrow>
             (case lo of
                Returns v \<Rightarrow> (FallbackSet v, s, 0)
              | Raises e \<Rightarrow> (Done (Inl (LoaderError e)), s, 0))
         | FallbackSet v \<Rightarrow>
             (case cache_set c key v ttl now s of
                Inl e \<Rightarrow> (Done (Inl e), s, 0)
              | Inr s1 \<Rightarrow> (Done (Inr v), s1, 0))
         | Done r \<Rightarrow> (Done r, s, 0))"

text \<open>
  One call running alone: its steps happen at the times of the list, in order, until the
  call is \<open>Done\<close> or the list ends. The last component counts the calls of the loader.
\<close>

fun gos_run ::
  "'v Cache \<Rightarrow> string \<Rightarrow> GetOrSetSafeOptions \<Rightarrow> 'v loaded \<Rightarrow> int list \<Rightarrow> 'v pc \<Rightarrow> store \<Rightarrow> nat \<Rightarrow> 'v pc \<times> store \<times> nat" where
  "gos_run c key options lo [] p s n = (p, s, n)"
| "gos_run c key options lo (t # ts) p s n =
     (case p of
        Done r \<Rightarrow> (p, s, n)
      | _ \<Rightarrow> (let (p1, s1, k) = gos_step c key options lo t p s
              in gos_run c key options lo ts p1 s1 (n + k)))"

definition getOrSetSafe ::
  "'v Cache \<Rightarrow> string \<Rightarrow> GetOrSetSafeOptions \<Rightarrow> 'v loaded \<Rightarrow> int list \<Rightarrow> store \<Rightarrow> 'v pc \<times> store \<times> nat" where
  "getOrSetSafe c key options lo ts s = gos_run c key options lo ts Start s 0"

section \<open>The store keys of a caller's key\<close>

definition drop_prefix :: "string \<Rightarrow> string \<Rightarrow> string option" where
  "drop_prefix p k = (if take (length p) k = p then Some (drop (length p) k) else None)"

text \<open>
  \<open>rl_addressed rl key k\<close>: \<open>k\<close> is a store key the limiter uses for the caller's key
  \<open>key\<close>: the prefixed key followed by a window start for the fixed window (one counter
  per window), the prefixed key itself for the sliding window and the token bucket.
\<close>

definition rl_addressed :: "RateLimiter \<Rightarrow> string \<Rightarrow> string \<Rightarrow> bool" where
  "rl_addressed rl key k =
     (case strategy rl of
        None \<Rightarrow> False
      | Some (FixedWindow lmt windowSec) \<Rightarrow>
          (case drop_prefix (prefixKey (prefix rl) key @ '':'') k of
             None \<Rightarrow> False
           | Some rest \<Rightarrow> redis_int rest \<noteq> None)
      | Some (SlidingWindow lmt windowSec) \<Rightarrow> k = prefixKey (prefix rl) key
      | Some (TokenBucket capacity refillRate) \<Rightarrow> k = prefixKey (prefix rl) key)"

text \<open>\<open>cache_addressed c key k\<close>: \<open>k\<close> holds the cache entry or the lock lease of \<open>key\<close>.\<close>

definition cache_addressed :: "'v Cache \<Rightarrow> string \<Rightarrow> string \<Rightarrow> bool" where
  "cache_addressed c key k = (k = cache_key c key \<or> k = lock_key c key)"

section \<open>Concurrent calls of getOrSetSafe on one key\<close>

text \<open>
  \<open>n\<close> callers run \<open>getOrSetSafe\<close> on the same key of the same cache with the same
  options; caller \<open>i\<close> has its own loader, \<open>loaders i\<close>. The callers share the store and
  the clock and nothing else. An event lets time pass (\<open>Tick d\<close>, \<open>d\<close> milliseconds) or lets
  one caller take its next step (\<open>Run i\<close>); a schedule is a list of events. Steps of
  different callers interleave in any order, each store command being indivisible.
\<close>

record 'v system =
  sys_store :: store
  sys_clock :: int
  sys_pcs :: "'v pc list"
  sys_loads :: nat

datatype event = Tick nat | Run nat

definition sys_step ::
  "'v Cache \<Rightarrow> string \<Rightarrow> GetOrSetSafeOptions \<Rightarrow> (nat \<Rightarrow> 'v loaded) \<Rightarrow> event \<Rightarrow> 'v system \<Rightarrow> 'v system" where
  "sys_step c key options loaders ev st =
     (case ev of
        Tick d \<Rightarrow> st\<lparr>sys_clock := sys_clock st + int d\<rparr>
      | Run i \<Rightarrow>
          if i < length (sys_pcs st)
          then (let (p1, s1, k) = gos_step c key options (loaders i) (sys_clock st)
                                    (sys_pcs st ! i) (sys_store st)
                in st\<lparr>sys_store := s1, sys_pcs := (sys_pcs st)[i := p1],
                       sys_loads := sys_loads st + k\<rparr>)
          else st)"

fun sys_run ::
  "'v Cache \<Rightarrow> string \<Rightarrow> GetOrSetSafeOptions \<Rightarrow> (nat \<Rightarrow> 'v loaded) \<Rightarrow> event list \<Rightarrow> 'v system \<Rightarrow> 'v system" where
  "sys_run c key options loaders [] st = st"
| "sys_run c key options loaders (ev # evs) st =
     sys_run c key options loaders evs (sys_step c key options loaders ev st)"

definition sys_init :: "store \<Rightarrow> int \<Rightarrow> nat \<Rightarrow> 'v system" where
  "sys_init s t0 n = \<lparr>sys_store = s, sys_clock = t0, sys_pcs = replicate n Start, sys_loads = 0\<rparr>"

text \<open>A caller proceeds as the lease holder from the reply \<^verbatim>\<open>"OK"\<close> to its \<^verbatim>\<open>SET NX\<close>
  until its \<^verbatim>\<open>DEL\<close> of the lock key has run.\<close>

fun holder :: "'v pc \<Rightarrow> bool" where
  "holder Loading = True"
| "holder (HolderSet v) = True"
| "holder (Release r) = True"
| "holder p = False"

text \<open>A caller whose \<^verbatim>\<open>DEL\<close> of the lock key is in flight.\<close>

fun releasing :: "'v pc \<Rightarrow> bool" where
  "releasing (Release r) = True"
| "releasing p = False"

text \<open>\<open>lease_held st\<close>: if some caller proceeds as the holder, the lock key is live (the
  lease has not expired under it).\<close>

definition lease_held :: "'v Cache \<Rightarrow> string \<Rightarrow> 'v system \<Rightarrow> bool" where
  "lease_held c key st =
     ((\<exists>p \<in> set (sys_pcs st). holder p) \<longrightarrow>
        live (sys_store st) (sys_clock st) (lock_key c key) \<noteq> None)"

text \<open>\<open>lease_kept\<close>: \<open>lease_held\<close> in every state a schedule goes through.\<close>

fun lease_kept ::
  "'v Cache \<Rightarrow> string \<Rightarrow> GetOrSetSafeOptions \<Rightarrow> (nat \<Rightarrow> 'v loaded) \<Rightarrow> event list \<Rightarrow> 'v system \<Rightarrow> bool" where
  "lease_kept c key options loaders [] st = lease_held c key st"
| "lease_kept c key options loaders (ev # evs) st =
     (lease_held c key st \<and>
      lease_kept c key options loaders evs (sys_step c key options loaders ev st))"

text \<open>\<open>timely ev st\<close>: when the event is the holder's \<^verbatim>\<open>DEL\<close> of the lock key, no caller
  stands between its cache miss and its \<^verbatim>\<open>SET NX\<close>.\<close>

definition timely :: "event \<Rightarrow> 'v system \<Rightarrow> bool" where
  "timely ev st =
     (case ev of
        Tick d \<Rightarrow> True
      | Run i \<Rightarrow> (i < length (sys_pcs st) \<and> releasing (sys_pcs st ! i) \<longrightarrow>
                    TryLock \<notin> set (sys_pcs st)))"

text \<open>No two callers proceed as the lease holder.\<close>

definition at_most_one_holder :: "'v pc list \<Rightarrow> bool" where
  "at_most_one_holder pcs =
     (\<forall>i < length pcs. \<forall>j < length pcs. holder (pcs ! i) \<and> holder (pcs ! j) \<longrightarrow> i = j)"

text \<open>For examples: no options given, and callers whose loaders return their own number.\<close>

definition no_options :: GetOrSetSafeOptions where
  "no_options = \<lparr>opt_ttl = None, opt_lockTTL = None, opt_waitTimeout = None, opt_retryInterval = None\<rparr>"

definition numbered_loaders :: "nat \<Rightarrow> jatom loaded" where
  "numbered_loaders i = Returns (Some (JNum (int i)))"

section \<open>Single flight: schedules and phases\<close>

text \<open>The time that passes during a schedule, in milliseconds.\<close>

fun elapsed :: "event list \<Rightarrow> int" where
  "elapsed [] = 0"
| "elapsed (Tick d # evs) = int d + elapsed evs"
| "elapsed (Run i # evs) = elapsed evs"

text \<open>\<open>timely\<close> at every event of a schedule: whenever the holder's \<^verbatim>\<open>DEL\<close> of the lock key
  runs, every caller that missed the cache has made its lock attempt.\<close>

fun timely_run ::
  "'v Cache \<Rightarrow> string \<Rightarrow> GetOrSetSafeOptions \<Rightarrow> (nat \<Rightarrow> 'v loaded) \<Rightarrow> event list \<Rightarrow> 'v system \<Rightarrow> bool" where
  "timely_run c key options loaders [] st = True"
| "timely_run c key options loaders (ev # evs) st =
     (timely ev st \<and> timely_run c key options loaders evs (sys_step c key options loaders ev st))"

text \<open>
  \<open>quick c options evs\<close>: the schedule lasts less than \<open>lockTTL\<close> (seconds), less than
  \<open>waitTimeout\<close> (milliseconds) and less than the TTL of the cache entry, if it has one
  (seconds). The defaults are those of \<open>getOrSetSafe\<close> and \<open>set\<close>.
\<close>

definition quick :: "'v Cache \<Rightarrow> GetOrSetSafeOptions \<Rightarrow> event list \<Rightarrow> bool" where
  "quick c options evs =
     (let lockTTL = (case opt_lockTTL options of None \<Rightarrow> 10 | Some x \<Rightarrow> x);
          waitTimeout = (case opt_waitTimeout options of None \<Rightarrow> 5000 | Some x \<Rightarrow> x);
          effectiveTTL = (case opt_ttl options of None \<Rightarrow> c_defaultTTL c | Some t \<Rightarrow> Some t)
      in elapsed evs < lockTTL * 1000 \<and> elapsed evs < waitTimeout \<and>
         (case effectiveTTL of None \<Rightarrow> True | Some t \<Rightarrow> elapsed evs < t * 1000))"

text \<open>
  The contended schedule of \<open>n\<close> callers: all miss the cache, all attempt the lock (caller
  0 first, who acquires it), the loader of caller 0 takes \<open>d\<close> milliseconds, caller 0
  writes the value and releases the lock, and each of the others wakes up, polls and
  returns.
\<close>

definition contended :: "nat \<Rightarrow> nat \<Rightarrow> event list" where
  "contended n d =
     map Run [0..<n] @ Run 0 # map Run [1..<n] @ Tick d # Run 0 # Run 0 # Run 0 #
     map Run [1..<n] @ map Run [1..<n]"

text \<open>
  For the proofs. A run on a cold key goes through four phases: \<open>Cold\<close> (no lock, no
  value), \<open>Held i v\<close> (caller \<open>i\<close> holds the lock and its loader gives \<open>v\<close>),
  \<open>Written i v\<close> (caller \<open>i\<close> has cached \<open>v\<close> and not yet released the lock) and
  \<open>Released i v\<close>. \<open>h\<close> is a time the run does not reach: a key is \<open>fresh_until h\<close> when
  it is present and does not expire before \<open>h\<close>, and a waiter is \<open>waiting h\<close> when its
  deadline is not before \<open>h\<close>.
\<close>

definition fresh_until :: "int \<Rightarrow> store \<Rightarrow> string \<Rightarrow> bool" where
  "fresh_until h s k =
     (case s k of
        None \<Rightarrow> False
      | Some e \<Rightarrow> (case expireAt e of None \<Rightarrow> True | Some x \<Rightarrow> h \<le> x))"

definition cached :: "'v Cache \<Rightarrow> string \<Rightarrow> int \<Rightarrow> 'v \<Rightarrow> store \<Rightarrow> bool" where
  "cached c key h v s =
     (fresh_until h s (cache_key c key) \<and>
      (\<exists>e. s (cache_key c key) = Some e \<and> val e = RStr (c_serialize c (Some v))))"

datatype 'v phase = Cold | Held nat 'v | Written nat 'v | Released nat 'v

fun waiting :: "int \<Rightarrow> 'v pc \<Rightarrow> bool" where
  "waiting h (Sleeping d w) = (h \<le> d)"
| "waiting h (Poll d) = (h \<le> d)"
| "waiting h p = False"

text \<open>Where caller \<open>j\<close> may stand in a phase, and what the store holds.\<close>

fun may_be :: "int \<Rightarrow> 'v phase \<Rightarrow> nat \<Rightarrow> 'v pc \<Rightarrow> bool" where
  "may_be h Cold j p = (p = Start \<or> p = TryLock)"
| "may_be h (Held i v) j p =
     (if j = i then p = Loading \<or> p = HolderSet (Some v)
      else p = Start \<or> p = TryLock \<or> waiting h p)"
| "may_be h (Written i v) j p =
     (if j = i then p = Release (Inr (Some v))
      else p = Start \<or> p = TryLock \<or> waiting h p \<or> p = Done (Inr (Some v)))"
| "may_be h (Released i v) j p = (p = Start \<or> waiting h p \<or> p = Done (Inr (Some v)))"

fun store_ok :: "'v Cache \<Rightarrow> string \<Rightarrow> int \<Rightarrow> int \<Rightarrow> 'v phase \<Rightarrow> store \<Rightarrow> bool" where
  "store_ok c key h now Cold s =
     (live s now (cache_key c key) = None \<and> live s now (lock_key c key) = None)"
| "store_ok c key h now (Held i v) s =
     (live s now (cache_key c key) = None \<and> fresh_until h s (lock_key c key))"
| "store_ok c key h now (Written i v) s =
     (cached c key h v s \<and> fresh_until h s (lock_key c key))"
| "store_ok c key h now (Released i v) s = cached c key h v s"

fun phase_loads :: "'v phase \<Rightarrow> nat" where
  "phase_loads Cold = 0"
| "phase_loads ph = 1"

fun phase_wf :: "(nat \<Rightarrow> 'v loaded) \<Rightarrow> nat \<Rightarrow> 'v phase \<Rightarrow> bool" where
  "phase_wf loaders n Cold = True"
| "phase_wf loaders n (Held i v) = (i < n \<and> loaders i = Returns (Some v))"
| "phase_wf loaders n (Written i v) = (i < n \<and> loaders i = Returns (Some v))"
| "phase_wf loaders n (Released i v) = (i < n \<and> loaders i = Returns (Some v))"

text \<open>The bounds on the options and the loaders under which the phases are kept up to
  time \<open>h\<close>, for a run that starts at \<open>t0\<close>.\<close>

definition setting ::
  "'v Cache \<Rightarrow> GetOrSetSafeOptions \<Rightarrow> (nat \<Rightarrow> 'v loaded) \<Rightarrow> nat \<Rightarrow> int \<Rightarrow> int \<Rightarrow> bool" where
  "setting c options loaders n t0 h =
     (let lockTTL = (case opt_lockTTL options of None \<Rightarrow> 10 | Some x \<Rightarrow> x);
          waitTimeout = (case opt_waitTimeout options of None \<Rightarrow> 5000 | Some x \<Rightarrow> x);
          effectiveTTL = (case opt_ttl options of None \<Rightarrow> c_defaultTTL c | Some t \<Rightarrow> Some t)
      in 0 < lockTTL \<and> h \<le> t0 + lockTTL * 1000 \<and> 0 < waitTimeout \<and> h \<le> t0 + waitTimeout \<and>
         (case effectiveTTL of None \<Rightarrow> True | Some t \<Rightarrow> 0 < t \<and> h \<le> t0 + t * 1000) \<and>
         (\<forall>i < n. \<exists>v. loaders i = Returns (Some v) \<and>
                        c_deserialize c (c_serialize c (Some v)) = Inr (Some v)))"

text \<open>The state of the system in a phase.\<close>

definition sf_inv ::
  "'v Cache \<Rightarrow> string \<Rightarrow> (nat \<Rightarrow> 'v loaded) \<Rightarrow> int \<Rightarrow> int \<Rightarrow> 'v phase \<Rightarrow> 'v system \<Rightarrow> bool" where
  "sf_inv c key loaders t0 h ph st =
     (t0 \<le> sys_clock st \<and>
      store_ok c key h (sys_clock st) ph (sys_store st) \<and>
      (\<forall>j < length (sys_pcs st). may_be h ph j (sys_pcs st ! j)) \<and>
      phase_wf loaders (length (sys_pcs st)) ph \<and>
      sys_loads st = phase_loads ph)"

section \<open>Facts about decimal rendering\<close>

lemma digit_val_digit_char: "d < 10 \<Longrightarrow> digit_val (digit_char d) = d"
proof -
  assume "d < 10"
  then have "d = 0 \<or> d = 1 \<or> d = 2 \<or> d = 3 \<or> d = 4 \<or> d = 5 \<or> d = 6 \<or> d = 7 \<or> d = 8 \<or> d = 9"
    by arith
  then show ?thesis
    by (auto simp: digit_val_def digit_char_def)
qed

lemma is_digit_digit_char: "d < 10 \<Longrightarrow> is_digit (digit_char d)"
proof -
  assume "d < 10"
  then have "d = 0 \<or> d = 1 \<or> d = 2 \<or> d = 3 \<or> d = 4 \<or> d = 5 \<or> d = 6 \<or> d = 7 \<or> d = 8 \<or> d = 9"
    by arith
  then show ?thesis
    by (auto simp: is_digit_def digit_char_def)
qed

lemma show_nat_digits: "\<forall>c \<in> set (show_nat n). is_digit c"
proof (induction n rule: show_nat.induct)
  case (1 n)
  show ?case
  proof (cases "n < 10")
    case True
    then show ?thesis by (subst show_nat.simps) (simp add: is_digit_digit_char)
  next
    case False
    with 1 show ?thesis by (subst show_nat.simps) (simp add: is_digit_digit_char)
  qed
qed

lemma show_nat_nonempty: "show_nat n \<noteq> []"
  by (subst show_nat.simps) simp

lemma dec_val_snoc: "dec_val (ds @ [c]) = 10 * dec_val ds + digit_val c"
  by (simp add: dec_val_def)

lemma dec_val_show_nat: "dec_val (show_nat n) = n"
proof (induction n rule: show_nat.induct)
  case (1 n)
  show ?case
  proof (cases "n < 10")
    case True
    then show ?thesis
      by (subst show_nat.simps) (simp add: dec_val_def digit_val_digit_char)
  next
    case False
    with 1 have "dec_val (show_nat (n div 10)) = n div 10" by simp
    with False show ?thesis
      by (subst show_nat.simps) (simp add: dec_val_snoc digit_val_digit_char)
  qed
qed

lemma takeWhile_show_nat: "takeWhile is_digit (show_nat n) = show_nat n"
  using show_nat_digits [of n] by (simp add: takeWhile_eq_all_conv)

lemma hd_show_nat_digit: "is_digit (hd (show_nat n))"
  using show_nat_digits [of n] show_nat_nonempty [of n] by (cases "show_nat n") auto

lemma parseInt10_show_int: "parseInt10 (show_int i) = Some i"
proof (cases "i < 0")
  case True
  then show ?thesis
    by (simp add: parseInt10_def show_int_def takeWhile_show_nat show_nat_nonempty
        dec_val_show_nat)
next
  case False
  obtain c cs where sn: "show_nat (nat i) = c # cs"
    using show_nat_nonempty [of "nat i"] by (cases "show_nat (nat i)") auto
  have "is_digit c"
    using hd_show_nat_digit [of "nat i"] sn by simp
  then have c: "c \<noteq> CHR ''-''" "c \<noteq> CHR ''+''"
    by (auto simp: is_digit_def)
  have tw: "takeWhile is_digit (c # cs) = c # cs"
    using takeWhile_show_nat [of "nat i"] sn by simp
  have dv: "dec_val (c # cs) = nat i"
    using dec_val_show_nat [of "nat i"] sn by simp
  from False c show ?thesis
    unfolding parseInt10_def show_int_def
    by (simp add: sn tw dv del: takeWhile.simps)
qed

lemma redis_int_show_int: "redis_int (show_int i) = Some i"
  by (simp add: redis_int_def parseInt10_show_int)

section \<open>Fixed window: the counter within one window\<close>

lemma secondsUntilWindowEnd_bounds:
  assumes "0 < W"
  shows "0 < secondsUntilWindowEnd W t \<and> secondsUntilWindowEnd W t \<le> W"
proof -
  define x :: real where "x = of_int t / 1000"
  define w :: real where "w = of_int W"
  define q :: int where "q = \<lfloor>x / w\<rfloor>"
  have wpos: "0 < w" using assms by (simp add: w_def)
  have "of_int q \<le> x / w" "x / w < of_int q + 1"
    unfolding q_def by linarith+
  then have lo: "of_int q * w \<le> x" and hi: "x < of_int q * w + w"
    using wpos by (simp_all add: field_simps)
  have e: "secondsUntilWindowEnd W t = \<lceil>of_int q * w + w - x\<rceil>"
    by (simp add: secondsUntilWindowEnd_def Let_def x_def w_def q_def)
  have "0 < of_int q * w + w - x" using hi by simp
  then have p: "0 < \<lceil>of_int q * w + w - x\<rceil>" by linarith
  have "of_int q * w + w - x \<le> of_int W" using lo by (simp add: w_def)
  then have "\<lceil>of_int q * w + w - x\<rceil> \<le> W" by (simp add: ceiling_le_iff)
  with p e show ?thesis by simp
qed

lemma windowStart_le:
  assumes "0 < W"
  shows "windowStart W t * 1000 \<le> t" and "t < (windowStart W t + W) * 1000"
proof -
  define n where "n = t div 1000"
  have n: "n = (n div W) * W + n mod W" by simp
  have m: "0 \<le> n mod W" "n mod W < W" using assms by simp_all
  have a: "(n div W) * W \<le> n" using n m by linarith
  have b: "n < (n div W) * W + W" using n m by linarith
  have t: "t = n * 1000 + t mod 1000" by (simp add: n_def)
  have tm: "0 \<le> t mod 1000" "t mod 1000 < 1000" by simp_all
  have c: "n * 1000 \<le> t" using t tm by linarith
  have d: "t < n * 1000 + 1000" using t tm by linarith
  show "windowStart W t * 1000 \<le> t" using a c by (simp add: windowStart_def Let_def n_def)
  show "t < (windowStart W t + W) * 1000" using b d by (simp add: windowStart_def Let_def n_def)
qed


lemma fw_limit_fresh:
  assumes "live s t (windowKey key W t) = None"
  shows "fw_limit L W key (t, t2) s =
     Inr (\<lparr>allowed = (1 \<le> L), remaining = max 0 (L - 1), limit = L,
           retryAfter = (if 1 \<le> L then 0 else secondsUntilWindowEnd W t2)\<rparr>,
          s(windowKey key W t \<mapsto> \<lparr>val = RStr (show_int 1), expireAt = Some (t + W * 1000)\<rparr>))"
  using assms
  by (simp add: fw_limit_def redis_incr_def redis_expire_def live_def Let_def)

lemma fw_limit_live:
  assumes "s (windowKey key W t) = Some \<lparr>val = RStr (show_int c), expireAt = Some e\<rparr>"
    and "t < e" and "1 \<le> c"
  shows "fw_limit L W key (t, t2) s =
     Inr (\<lparr>allowed = (c + 1 \<le> L), remaining = max 0 (L - (c + 1)), limit = L,
           retryAfter = (if c + 1 \<le> L then 0 else secondsUntilWindowEnd W t2)\<rparr>,
          s(windowKey key W t \<mapsto> \<lparr>val = RStr (show_int (c + 1)), expireAt = Some e\<rparr>))"
  using assms
  by (simp add: fw_limit_def redis_incr_def live_def Let_def redis_int_show_int)

lemma fw_limits_live:
  assumes "s wk = Some \<lparr>val = RStr (show_int c), expireAt = Some e\<rparr>"
    and "1 \<le> c"
    and "\<forall>p \<in> set ts. windowKey key W (fst p) = wk \<and> fst p < e"
  shows "\<exists>rs s'. run_calls (fw_limit L W key) ts s = Inr (rs, s') \<and> length rs = length ts \<and>
           (\<forall>i < length ts.
              allowed (rs ! i) = (c + 1 + int i \<le> L) \<and>
              remaining (rs ! i) = max 0 (L - (c + 1 + int i)) \<and>
              limit (rs ! i) = L \<and>
              retryAfter (rs ! i) =
                (if c + 1 + int i \<le> L then 0 else secondsUntilWindowEnd W (snd (ts ! i))))"
  using assms
proof (induction ts arbitrary: s c)
  case Nil
  then show ?case by simp
next
  case (Cons p ts)
  obtain t t2 where p: "p = (t, t2)" by (cases p)
  from Cons.prems p have wk: "windowKey key W t = wk" and te: "t < e" by auto
  let ?s1 = "s(wk \<mapsto> \<lparr>val = RStr (show_int (c + 1)), expireAt = Some e\<rparr>)"
  let ?r = "\<lparr>allowed = (c + 1 \<le> L), remaining = max 0 (L - (c + 1)), limit = L,
           retryAfter = (if c + 1 \<le> L then 0 else secondsUntilWindowEnd W t2)\<rparr>"
  have step: "fw_limit L W key (t, t2) s = Inr (?r, ?s1)"
    unfolding wk [symmetric] by (rule fw_limit_live) (use Cons.prems(1,2) wk te in auto)
  have "\<exists>rs s'. run_calls (fw_limit L W key) ts ?s1 = Inr (rs, s') \<and> length rs = length ts \<and>
           (\<forall>i < length ts.
              allowed (rs ! i) = ((c + 1) + 1 + int i \<le> L) \<and>
              remaining (rs ! i) = max 0 (L - ((c + 1) + 1 + int i)) \<and>
              limit (rs ! i) = L \<and>
              retryAfter (rs ! i) =
                (if (c + 1) + 1 + int i \<le> L then 0 else secondsUntilWindowEnd W (snd (ts ! i))))"
    using Cons.prems by (intro Cons.IH) auto
  then obtain rs s' where run: "run_calls (fw_limit L W key) ts ?s1 = Inr (rs, s')"
    and len: "length rs = length ts"
    and each: "\<forall>i < length ts.
              allowed (rs ! i) = ((c + 1) + 1 + int i \<le> L) \<and>
              remaining (rs ! i) = max 0 (L - ((c + 1) + 1 + int i)) \<and>
              limit (rs ! i) = L \<and>
              retryAfter (rs ! i) =
                (if (c + 1) + 1 + int i \<le> L then 0 else secondsUntilWindowEnd W (snd (ts ! i)))"
    by blast
  have r: "run_calls (fw_limit L W key) (p # ts) s = Inr (?r # rs, s')"
    using step run p by simp
  have "\<forall>i < length (p # ts).
              allowed ((?r # rs) ! i) = (c + 1 + int i \<le> L) \<and>
              remaining ((?r # rs) ! i) = max 0 (L - (c + 1 + int i)) \<and>
              limit ((?r # rs) ! i) = L \<and>
              retryAfter ((?r # rs) ! i) =
                (if c + 1 + int i \<le> L then 0 else secondsUntilWindowEnd W (snd ((p # ts) ! i)))"
  proof (intro allI impI)
    fix i assume i: "i < length (p # ts)"
    show "allowed ((?r # rs) ! i) = (c + 1 + int i \<le> L) \<and>
              remaining ((?r # rs) ! i) = max 0 (L - (c + 1 + int i)) \<and>
              limit ((?r # rs) ! i) = L \<and>
              retryAfter ((?r # rs) ! i) =
                (if c + 1 + int i \<le> L then 0 else secondsUntilWindowEnd W (snd ((p # ts) ! i)))"
    proof (cases i)
      case 0
      then show ?thesis by (simp add: p)
    next
      case (Suc j)
      with i have "j < length ts" by simp
      with each Suc show ?thesis by (simp add: add.assoc add.commute)
    qed
  qed
  with r len show ?case by auto
qed


lemma fw_limits_fresh:
  assumes W: "0 < W"
    and same: "\<forall>p \<in> set ts. windowStart W (fst p) = windowStart W t"
    and fresh: "live s t (windowKey key W t) = None"
  shows "\<exists>rs s'. run_calls (fw_limit L W key) ((t, t2) # ts) s = Inr (rs, s') \<and>
           length rs = Suc (length ts) \<and>
           (\<forall>i < Suc (length ts).
              allowed (rs ! i) = (1 + int i \<le> L) \<and>
              remaining (rs ! i) = max 0 (L - (1 + int i)) \<and>
              limit (rs ! i) = L \<and>
              retryAfter (rs ! i) =
                (if 1 + int i \<le> L then 0
                 else secondsUntilWindowEnd W (snd (((t, t2) # ts) ! i))))"
proof -
  let ?wk = "windowKey key W t"
  let ?e = "t + W * 1000"
  let ?s1 = "s(?wk \<mapsto> \<lparr>val = RStr (show_int 1), expireAt = Some ?e\<rparr>)"
  let ?r = "\<lparr>allowed = (1 \<le> L), remaining = max 0 (L - 1), limit = L,
           retryAfter = (if 1 \<le> L then 0 else secondsUntilWindowEnd W t2)\<rparr>"
  have step: "fw_limit L W key (t, t2) s = Inr (?r, ?s1)"
    by (rule fw_limit_fresh [OF fresh])
  have inwin: "\<forall>p \<in> set ts. windowKey key W (fst p) = ?wk \<and> fst p < ?e"
  proof
    fix p assume p: "p \<in> set ts"
    with same have ws: "windowStart W (fst p) = windowStart W t" by simp
    have "fst p < (windowStart W (fst p) + W) * 1000"
      by (rule windowStart_le(2) [OF W])
    moreover have "windowStart W t * 1000 \<le> t"
      by (rule windowStart_le(1) [OF W])
    ultimately have "fst p < ?e" using ws by (simp add: algebra_simps)
    with ws show "windowKey key W (fst p) = ?wk \<and> fst p < ?e"
      by (simp add: windowKey_def)
  qed
  have s1: "?s1 ?wk = Some \<lparr>val = RStr (show_int 1), expireAt = Some ?e\<rparr>" by simp
  have one: "(1::int) \<le> 1" by simp
  from fw_limits_live [where s = ?s1 and wk = ?wk and c = 1 and e = ?e and L = L, OF s1 one inwin]
  obtain rs s' where run: "run_calls (fw_limit L W key) ts ?s1 = Inr (rs, s')"
    and len: "length rs = length ts"
    and each: "\<forall>i < length ts.
              allowed (rs ! i) = (1 + 1 + int i \<le> L) \<and>
              remaining (rs ! i) = max 0 (L - (1 + 1 + int i)) \<and>
              limit (rs ! i) = L \<and>
              retryAfter (rs ! i) =
                (if 1 + 1 + int i \<le> L then 0 else secondsUntilWindowEnd W (snd (ts ! i)))"
    by auto
  have r: "run_calls (fw_limit L W key) ((t, t2) # ts) s = Inr (?r # rs, s')"
    using step run by simp
  have "\<forall>i < Suc (length ts).
              allowed ((?r # rs) ! i) = (1 + int i \<le> L) \<and>
              remaining ((?r # rs) ! i) = max 0 (L - (1 + int i)) \<and>
              limit ((?r # rs) ! i) = L \<and>
              retryAfter ((?r # rs) ! i) =
                (if 1 + int i \<le> L then 0
                 else secondsUntilWindowEnd W (snd (((t, t2) # ts) ! i)))"
  proof (intro allI impI)
    fix i assume i: "i < Suc (length ts)"
    show "allowed ((?r # rs) ! i) = (1 + int i \<le> L) \<and>
              remaining ((?r # rs) ! i) = max 0 (L - (1 + int i)) \<and>
              limit ((?r # rs) ! i) = L \<and>
              retryAfter ((?r # rs) ! i) =
                (if 1 + int i \<le> L then 0
                 else secondsUntilWindowEnd W (snd (((t, t2) # ts) ! i)))"
    proof (cases i)
      case 0
      then show ?thesis by simp
    next
      case (Suc j)
      with i have "j < length ts" by simp
      with each Suc show ?thesis by (simp add: add.assoc add.commute)
    qed
  qed
  with r len show ?thesis by auto
qed

text \<open>
  Claim C2. With limit \<open>L\<close> and window \<open>W\<close>, \<open>L + 1\<close> consecutive \<open>limit\<close> calls on a key
  whose counter for the window is absent, all observing clock values in one window:
  the first \<open>L\<close> are allowed with \<open>remaining\<close> going \<open>L - 1, ..., 0\<close>; the last is
  rejected with \<open>remaining = 0\<close> and \<open>0 < retryAfter \<le> W\<close>.
\<close>

theorem fixed_window_monotonicity:
  assumes W: "0 < W" and L: "0 \<le> L"
    and len: "length ts = nat L + 1"
    and same: "\<forall>p \<in> set ts. windowStart W (fst p) = windowStart W (fst (hd ts))"
    and fresh: "live s (fst (hd ts)) (windowKey key W (fst (hd ts))) = None"
  shows "\<exists>rs s'. run_calls (fw_limit L W key) ts s = Inr (rs, s') \<and>
           length rs = nat L + 1 \<and>
           (\<forall>i < nat L. allowed (rs ! i) \<and> remaining (rs ! i) = L - 1 - int i) \<and>
           \<not> allowed (rs ! nat L) \<and> remaining (rs ! nat L) = 0 \<and>
           0 < retryAfter (rs ! nat L) \<and> retryAfter (rs ! nat L) \<le> W"
proof -
  from len obtain p ts' where ts: "ts = p # ts'" by (cases ts) auto
  obtain t t2 where p: "p = (t, t2)" by (cases p)
  from len ts have len': "length ts' = nat L" by simp
  from same ts p have same': "\<forall>q \<in> set ts'. windowStart W (fst q) = windowStart W t" by simp
  from fresh ts p have fresh': "live s t (windowKey key W t) = None" by simp
  from fw_limits_fresh [OF W same' fresh', of L t2]
  obtain rs s' where run: "run_calls (fw_limit L W key) ((t, t2) # ts') s = Inr (rs, s')"
    and lrs: "length rs = Suc (length ts')"
    and each: "\<forall>i < Suc (length ts').
              allowed (rs ! i) = (1 + int i \<le> L) \<and>
              remaining (rs ! i) = max 0 (L - (1 + int i)) \<and>
              limit (rs ! i) = L \<and>
              retryAfter (rs ! i) =
                (if 1 + int i \<le> L then 0
                 else secondsUntilWindowEnd W (snd (((t, t2) # ts') ! i)))"
    by blast
  have a: "\<forall>i < nat L. allowed (rs ! i) \<and> remaining (rs ! i) = L - 1 - int i"
  proof (intro allI impI)
    fix i assume i: "i < nat L"
    then have "i < Suc (length ts')" using len' by simp
    with each have "allowed (rs ! i) = (1 + int i \<le> L)"
      and "remaining (rs ! i) = max 0 (L - (1 + int i))" by auto
    moreover from i have "1 + int i \<le> L" by linarith
    ultimately show "allowed (rs ! i) \<and> remaining (rs ! i) = L - 1 - int i" by simp
  qed
  have last: "nat L < Suc (length ts')" using len' by simp
  have nl: "\<not> 1 + int (nat L) \<le> L" using L by simp
  from each last nl have b: "\<not> allowed (rs ! nat L)" "remaining (rs ! nat L) = 0"
    and ra: "retryAfter (rs ! nat L) = secondsUntilWindowEnd W (snd (((t, t2) # ts') ! nat L))"
    using L by auto
  from secondsUntilWindowEnd_bounds [OF W] ra
  have c: "0 < retryAfter (rs ! nat L)" "retryAfter (rs ! nat L) \<le> W" by auto
  from run lrs len' a b c show ?thesis unfolding ts p by auto
qed

theorem fixed_window_monotonicity_witness:
  "\<exists>rs s'. run_calls (fw_limit 3 60 ''rl:u1'')
       [(1708617624000, 1708617624001), (1708617625000, 1708617625002),
        (1708617626500, 1708617626501), (1708617659999, 1708617660000)] (\<lambda>k. None) = Inr (rs, s') \<and>
     map allowed rs = [True, True, True, False] \<and>
     map remaining rs = [2, 1, 0, 0] \<and>
     0 < retryAfter (rs ! 3) \<and> retryAfter (rs ! 3) \<le> 60"
proof -
  let ?ts = "[(1708617624000, 1708617624001), (1708617625000, 1708617625002),
        (1708617626500, 1708617626501), (1708617659999, 1708617660000)] :: (int \<times> int) list"
  have W: "(0::int) < 60" and L: "(0::int) \<le> 3" by simp_all
  have len: "length ?ts = nat 3 + 1" by simp
  have same: "\<forall>p \<in> set ?ts. windowStart 60 (fst p) = windowStart 60 (fst (hd ?ts))"
    by (simp add: windowStart_def)
  have fresh: "live (\<lambda>k. None) (fst (hd ?ts)) (windowKey ''rl:u1'' 60 (fst (hd ?ts))) = None"
    by (simp add: live_def)
  from fixed_window_monotonicity [OF W L len same fresh]
  obtain rs s' where run: "run_calls (fw_limit 3 60 ''rl:u1'') ?ts (\<lambda>k. None) = Inr (rs, s')"
    and lrs: "length rs = nat 3 + 1"
    and a: "\<forall>i < nat 3. allowed (rs ! i) \<and> remaining (rs ! i) = 3 - 1 - int i"
    and b: "\<not> allowed (rs ! nat 3)" "remaining (rs ! nat 3) = 0"
      "0 < retryAfter (rs ! nat 3)" "retryAfter (rs ! nat 3) \<le> 60"
    by blast
  from lrs obtain r0 r1 r2 r3 where rs: "rs = [r0, r1, r2, r3]"
    by (auto simp: length_Suc_conv numeral_eq_Suc)
  from a have "allowed (rs ! 0) \<and> remaining (rs ! 0) = 2"
    "allowed (rs ! 1) \<and> remaining (rs ! 1) = 1" "allowed (rs ! 2) \<and> remaining (rs ! 2) = 0"
    by (auto simp: numeral_eq_Suc)
  with b rs run show ?thesis by (auto simp: numeral_eq_Suc)
qed

section \<open>Sliding window: the boundary case\<close>

lemma sw_limit_rejected_retryAfter:
  "sw_limit L W key obs s = Inr (r, s') \<Longrightarrow> \<not> allowed r \<Longrightarrow> retryAfter r = W"
  by (auto simp: sw_limit_def Let_def split: prod.splits sum.splits)

lemma sw_three_calls:
  assumes fresh: "live s t1 key = None"
    and t: "t1 \<le> t2" "t2 \<le> t3" "t3 < t1 + 60000"
    and ids: "requestId t1 r1 \<noteq> requestId t2 r2"
  shows "\<exists>ra rb rc s'.
           run_calls (sw_limit 2 60 key) [(t1, r1), (t2, r2), (t3, r3)] s = Inr ([ra, rb, rc], s') \<and>
           allowed ra \<and> allowed rb \<and> \<not> allowed rc \<and> retryAfter rc = 60"
  using assms
  by (simp add: sw_limit_def sliding_window_script_def redis_zremrangebyscore_def
      redis_zcard_def redis_zadd_def redis_expire_def live_def Let_def)

text \<open>
  Claim C9. Limit 2, window 60 s, a fresh key: the claim has the first two \<open>limit\<close>
  calls allowed and the third, still within the window, rejected with \<open>retryAfter = 60\<close>.
  The code does so whenever the first two calls store different members
  (\<open>sw_three_calls\<close> above), and a rejected call always has \<open>retryAfter\<close> equal to the
  window length (\<open>sw_limit_rejected_retryAfter\<close>). The member is \<^verbatim>\<open>nowMs:suffix\<close> with a
  random suffix, which the docstring of \<open>requestId\<close> says keeps two requests of one
  millisecond apart. It does not when the two draw the same suffix: evaluated there, the
  second \<^verbatim>\<open>ZADD\<close> replaces the member, the log holds one entry, and the third call is
  allowed with \<open>retryAfter = 0\<close>.
\<close>

theorem sliding_window_member_collision:
  "call_results (run_calls (sw_limit 2 60 ''rl:user:1'')
       [(1708617624000, ''k3j9x0aa''), (1708617624000, ''k3j9x0aa''), (1708617624001, ''p07zq1bc'')]
       empty_store)
     = [\<lparr>allowed = True, remaining = 1, limit = 2, retryAfter = 0\<rparr>,
        \<lparr>allowed = True, remaining = 0, limit = 2, retryAfter = 0\<rparr>,
        \<lparr>allowed = True, remaining = 0, limit = 2, retryAfter = 0\<rparr>]"
  by (simp add: sw_limit_def sliding_window_script_def redis_zremrangebyscore_def
      redis_zcard_def redis_zadd_def redis_expire_def live_def Let_def requestId_def
      call_results_def empty_store_def)

section \<open>Token bucket: the stored record\<close>

lemma tb_wf_cases:
  "tb_wf C r key s t \<longleftrightarrow>
     (s key = None \<or>
      (\<exists>tok t0. s key = Some (bucket_entry tok (of_int t0) (t0 + tb_ttl C r * 1000)) \<and>
                 t0 \<le> t \<and> 0 \<le> tok \<and> tok \<le> of_int C))"
proof
  assume wf: "tb_wf C r key s t"
  show "s key = None \<or>
      (\<exists>tok t0. s key = Some (bucket_entry tok (of_int t0) (t0 + tb_ttl C r * 1000)) \<and>
                 t0 \<le> t \<and> 0 \<le> tok \<and> tok \<le> of_int C)"
  proof (cases "s key")
    case None
    then show ?thesis by simp
  next
    case (Some e)
    with wf obtain fs tok lr where "val e = RHash fs"
      and "map_of fs ''tokens'' = Some tok" "map_of fs ''last_refill'' = Some lr"
      and e: "e = bucket_entry tok lr (\<lfloor>lr\<rfloor> + tb_ttl C r * 1000)"
      and lr: "lr = of_int \<lfloor>lr\<rfloor>" "\<lfloor>lr\<rfloor> \<le> t" and tok: "0 \<le> tok" "tok \<le> of_int C"
      by (auto simp: tb_wf_def split: rvalue.splits option.splits)
    from e lr(1) have "e = bucket_entry tok (of_int \<lfloor>lr\<rfloor>) (\<lfloor>lr\<rfloor> + tb_ttl C r * 1000)" by simp
    with Some lr tok show ?thesis by blast
  qed
next
  assume "s key = None \<or>
      (\<exists>tok t0. s key = Some (bucket_entry tok (of_int t0) (t0 + tb_ttl C r * 1000)) \<and>
                 t0 \<le> t \<and> 0 \<le> tok \<and> tok \<le> of_int C)"
  then show "tb_wf C r key s t"
    by (auto simp: tb_wf_def bucket_entry_def)
qed

lemma tb_ttl_pos:
  assumes "0 < r" "0 \<le> C"
  shows "10 \<le> tb_ttl C r"
proof -
  have "0 \<le> of_int C / r" using assms by simp
  then have "0 \<le> \<lceil>of_int C / r\<rceil>" by linarith
  then show ?thesis by (simp add: tb_ttl_def)
qed

lemma tb_run_absent:
  assumes "live s t key = None" and "r \<noteq> 0"
  shows "tb_run C r key t c s =
     Inr (\<lparr>allowed = (1 \<le> C),
           remaining = (if c \<and> 1 \<le> C then C - 1 else C),
           limit = C,
           retryAfter = (if 1 \<le> C then 0 else \<lceil>1 / r\<rceil>)\<rparr>,
          s(key \<mapsto> bucket_entry (if c \<and> 1 \<le> C then of_int C - 1 else of_int C) (of_int t)
                    (t + tb_ttl C r * 1000)))"
  using assms
  by (auto simp: tb_run_def token_bucket_script_def redis_hget_def redis_hset_def
      redis_expire_def live_def bucket_entry_def tb_ttl_def Let_def)

lemma tb_run_live:
  assumes "s key = Some (bucket_entry tok lr e)" and "t < e" and "r \<noteq> 0"
  shows "tb_run C r key t c s =
     (let tokens2 = min (of_int C) (tok + ((of_int t - lr) / 1000) * r);
          tokens3 = (if c \<and> 1 \<le> tokens2 then tokens2 - 1 else tokens2)
      in Inr (\<lparr>allowed = (1 \<le> tokens2),
               remaining = \<lfloor>tokens3\<rfloor>,
               limit = C,
               retryAfter = (if 1 \<le> tokens2 then 0 else \<lceil>1 / r\<rceil>)\<rparr>,
              s(key \<mapsto> bucket_entry tokens3 (of_int t) (t + tb_ttl C r * 1000))))"
  using assms
  by (auto simp: tb_run_def token_bucket_script_def redis_hget_def redis_hset_def
      redis_expire_def live_def bucket_entry_def tb_ttl_def Let_def)


lemma tb_op_step:
  assumes r: "0 < r" and C: "0 \<le> C"
    and wf: "tb_wf C r key s t0" and t: "t0 \<le> t"
  shows "\<exists>res tok. tb_op C r key (t, c) s =
            Inr (res, s(key \<mapsto> bucket_entry tok (of_int t) (t + tb_ttl C r * 1000))) \<and>
          0 \<le> tok \<and> tok \<le> of_int C"
proof (cases "live s t key")
  case None
  have run: "tb_op C r key (t, c) s = tb_run C r key t c s"
    by (simp add: tb_op_def tb_limit_def tb_peek_def)
  from r have r0: "r \<noteq> 0" by simp
  from C have "0 \<le> (if c \<and> 1 \<le> C then of_int C - 1 else (of_int C :: real))"
    and "(if c \<and> 1 \<le> C then of_int C - 1 else (of_int C :: real)) \<le> of_int C"
    by auto
  with tb_run_absent [where C = C and r = r and c = c, OF None r0] run show ?thesis by metis
next
  case (Some e0)
  then have "s key \<noteq> None" by (auto simp: live_def split: option.splits)
  with wf obtain tok t1 where sk: "s key = Some (bucket_entry tok (of_int t1) (t1 + tb_ttl C r * 1000))"
    and t1: "t1 \<le> t0" and tok: "0 \<le> tok" "tok \<le> of_int C"
    by (auto simp: tb_wf_cases)
  from Some sk have lt: "t < t1 + tb_ttl C r * 1000"
    by (auto simp: live_def bucket_entry_def split: if_splits)
  define tokens2 where "tokens2 = min (of_int C) (tok + ((of_int t - of_int t1) / 1000) * r)"
  define tokens3 where "tokens3 = (if c \<and> 1 \<le> tokens2 then tokens2 - 1 else tokens2)"
  have run: "tb_op C r key (t, c) s = tb_run C r key t c s"
    by (simp add: tb_op_def tb_limit_def tb_peek_def)
  have el: "0 \<le> ((of_int t - of_int t1) / 1000) * r"
    using t t1 r by simp
  have t2: "0 \<le> tokens2" "tokens2 \<le> of_int C"
    using tok el C by (auto simp: tokens2_def)
  then have t3: "0 \<le> tokens3" "tokens3 \<le> of_int C"
    by (auto simp: tokens3_def)
  from r have r0: "r \<noteq> 0" by simp
  from tb_run_live [where s = s and key = key and C = C and r = r and c = c, OF sk lt r0] run
  have "\<exists>res. tb_op C r key (t, c) s =
          Inr (res, s(key \<mapsto> bucket_entry tokens3 (of_int t) (t + tb_ttl C r * 1000)))"
    by (simp add: Let_def tokens2_def tokens3_def)
  with t3 show ?thesis by blast
qed

lemma bucket_state_entry:
  assumes "s key = Some (bucket_entry tok lr e)" "t < e"
  shows "bucket_state s t key = Some (tok, lr)"
  using assms by (simp add: bucket_state_def redis_hget_def live_def bucket_entry_def)

lemma tb_wf_entry:
  assumes "0 \<le> tok" "tok \<le> of_int C"
  shows "tb_wf C r key (s(key \<mapsto> bucket_entry tok (of_int t) (t + tb_ttl C r * 1000))) t"
  using assms by (auto simp: tb_wf_cases)

lemma tb_states:
  assumes r: "0 < r" and C: "0 \<le> C"
    and wf: "tb_wf C r key s t0"
    and srt: "sorted (map fst ops)"
    and ge: "\<forall>p \<in> set ops. t0 \<le> fst p"
  shows "length (run_states (tb_op C r key) ops s) = length ops \<and>
         (\<forall>i < length ops. \<exists>tok.
             bucket_state (run_states (tb_op C r key) ops s ! i) (fst (ops ! i)) key =
               Some (tok, of_int (fst (ops ! i))) \<and> 0 \<le> tok \<and> tok \<le> of_int C)"
  using wf srt ge
proof (induction ops arbitrary: s t0)
  case Nil
  then show ?case by simp
next
  case (Cons p ops)
  obtain t c where p: "p = (t, c)" by (cases p)
  from Cons.prems p have t: "t0 \<le> t" by simp
  from tb_op_step [OF r C Cons.prems(1) t, of c]
  obtain res tok where step: "tb_op C r key (t, c) s =
            Inr (res, s(key \<mapsto> bucket_entry tok (of_int t) (t + tb_ttl C r * 1000)))"
    and tok: "0 \<le> tok" "tok \<le> of_int C" by blast
  define s1 where "s1 = s(key \<mapsto> bucket_entry tok (of_int t) (t + tb_ttl C r * 1000))"
  have wf1: "tb_wf C r key s1 t" unfolding s1_def by (rule tb_wf_entry [OF tok])
  have srt1: "sorted (map fst ops)" using Cons.prems(2) by simp
  have ge1: "\<forall>q \<in> set ops. t \<le> fst q" using Cons.prems(2) p by auto
  note IH = Cons.IH [OF wf1 srt1 ge1]
  have rs: "run_states (tb_op C r key) (p # ops) s = s1 # run_states (tb_op C r key) ops s1"
    using step p by (simp add: s1_def)
  have ttl: "t < t + tb_ttl C r * 1000" using tb_ttl_pos [OF r C] by simp
  have b0: "bucket_state s1 t key = Some (tok, of_int t)"
    by (rule bucket_state_entry [where e = "t + tb_ttl C r * 1000"]) (use ttl in \<open>simp_all add: s1_def\<close>)
  show ?case
  proof (intro conjI allI impI)
    show "length (run_states (tb_op C r key) (p # ops) s) = length (p # ops)"
      using IH rs by simp
  next
    fix i assume i: "i < length (p # ops)"
    show "\<exists>tok. bucket_state (run_states (tb_op C r key) (p # ops) s ! i) (fst ((p # ops) ! i)) key =
               Some (tok, of_int (fst ((p # ops) ! i))) \<and> 0 \<le> tok \<and> tok \<le> of_int C"
    proof (cases i)
      case 0
      with b0 tok rs p show ?thesis by auto
    next
      case (Suc j)
      with i have "j < length ops" by simp
      with IH Suc rs show ?thesis by simp
    qed
  qed
qed


text \<open>
  Claim C3, as the code has it. Capacity \<open>C \<ge> 0\<close>, refill rate \<open>r > 0\<close>, a key that was
  never written or holds a record the script left, and any sequence of \<open>limit\<close> and
  \<open>peek\<close> operations whose observed times are non-decreasing and not before the stored
  \<open>last_refill\<close>: every operation returns, after each one the stored record has
  \<open>0 \<le> tokens \<le> C\<close>, and the stored \<open>last_refill\<close> never decreases from one operation
  to a later one.
\<close>

theorem token_bucket_invariants:
  assumes r: "0 < r" and C: "0 \<le> C"
    and wf: "tb_wf C r key s t0"
    and srt: "sorted (map fst ops)"
    and ge: "\<forall>p \<in> set ops. t0 \<le> fst p"
  shows "length (run_states (tb_op C r key) ops s) = length ops \<and>
         (\<forall>i < length ops. \<exists>tok lr.
             bucket_state (run_states (tb_op C r key) ops s ! i) (fst (ops ! i)) key = Some (tok, lr) \<and>
             0 \<le> tok \<and> tok \<le> of_int C) \<and>
         (\<forall>i j tok lr tok' lr'. i \<le> j \<and> j < length ops \<and>
             bucket_state (run_states (tb_op C r key) ops s ! i) (fst (ops ! i)) key = Some (tok, lr) \<and>
             bucket_state (run_states (tb_op C r key) ops s ! j) (fst (ops ! j)) key = Some (tok', lr')
             \<longrightarrow> lr \<le> lr')"
proof -
  note st = tb_states [OF r C wf srt ge]
  show ?thesis
  proof (intro conjI allI impI)
    show "length (run_states (tb_op C r key) ops s) = length ops" using st by simp
  next
    fix i assume "i < length ops"
    with st show "\<exists>tok lr.
             bucket_state (run_states (tb_op C r key) ops s ! i) (fst (ops ! i)) key = Some (tok, lr) \<and>
             0 \<le> tok \<and> tok \<le> of_int C" by blast
  next
    fix i j tok lr tok' lr'
    assume a: "i \<le> j \<and> j < length ops \<and>
             bucket_state (run_states (tb_op C r key) ops s ! i) (fst (ops ! i)) key = Some (tok, lr) \<and>
             bucket_state (run_states (tb_op C r key) ops s ! j) (fst (ops ! j)) key = Some (tok', lr')"
    then have ij: "i \<le> j" "j < length ops" "i < length ops" by auto
    from st ij(3) obtain x where "bucket_state (run_states (tb_op C r key) ops s ! i) (fst (ops ! i)) key =
               Some (x, of_int (fst (ops ! i)))" by blast
    with a have lr: "lr = of_int (fst (ops ! i))" by simp
    from st ij(2) obtain y where "bucket_state (run_states (tb_op C r key) ops s ! j) (fst (ops ! j)) key =
               Some (y, of_int (fst (ops ! j)))" by blast
    with a have lr': "lr' = of_int (fst (ops ! j))" by simp
    from srt ij have "map fst ops ! i \<le> map fst ops ! j"
      by (intro sorted_nth_mono) auto
    with ij have "fst (ops ! i) \<le> fst (ops ! j)" by simp
    with lr lr' show "lr \<le> lr'" by simp
  qed
qed

theorem token_bucket_invariants_witness:
  "(0::real) < 2 \<and> (0::int) \<le> 2 \<and> tb_wf 2 2 ''rl:u'' (\<lambda>k. None) 0 \<and>
   map (\<lambda>s. bucket_state s 20000 ''rl:u'')
     (run_states (tb_op 2 2 ''rl:u'') [(10000, True), (10000, True), (10000, True), (10600, False), (10600, True)]
        (\<lambda>k. None)) =
   [Some (1, 10000), Some (0, 10000), Some (0, 10000), Some (6 / 5, 10600), Some (1 / 5, 10600)]"
proof -
  let ?ops = "[(10000, True), (10000, True), (10000, True), (10600, False), (10600, True)] :: (int \<times> bool) list"
  have r: "(0::real) < 2" and C: "(0::int) \<le> 2" by simp_all
  have wf: "tb_wf 2 2 ''rl:u'' (\<lambda>k. None) 0" by (simp add: tb_wf_def)
  have srt: "sorted (map fst ?ops)" by simp
  have ge: "\<forall>p \<in> set ?ops. 0 \<le> fst p" by simp
  note th = token_bucket_invariants [OF r C wf srt ge]
  have "map (\<lambda>s. bucket_state s 20000 ''rl:u'') (run_states (tb_op 2 2 ''rl:u'') ?ops (\<lambda>k. None)) =
   [Some (1, 10000), Some (0, 10000), Some (0, 10000), Some (6 / 5, 10600), Some (1 / 5, 10600)]"
    by (simp add: tb_op_def tb_limit_def tb_peek_def tb_run_def token_bucket_script_def
      redis_hget_def redis_hset_def redis_expire_def live_def bucket_state_def Let_def)
  with r C wf th show ?thesis by simp
qed

text \<open>The claim as stated fails when a later operation observes an earlier clock value:
  the elapsed time is negative, the refill takes tokens away, and \<open>last_refill\<close> is set
  back.\<close>

theorem token_bucket_invariants_counterexample:
  "map allowed (call_results (run_calls (tb_op 2 2 ''rl:u'') [(10000, True), (9000, True)] empty_store))
     = [True, False] \<and>
   bucket_state (run_states (tb_op 2 2 ''rl:u'') [(10000, True), (9000, True)] empty_store ! 0) 10000 ''rl:u''
     = Some (1, 10000) \<and>
   bucket_state (run_states (tb_op 2 2 ''rl:u'') [(10000, True), (9000, True)] empty_store ! 1) 9000 ''rl:u''
     = Some (- 1, 9000)"
  by (simp add: tb_op_def tb_limit_def tb_run_def token_bucket_script_def redis_hget_def redis_hset_def
     redis_expire_def live_def bucket_state_def Let_def call_results_def empty_store_def)

section \<open>Peeks\<close>

lemma run_calls_replicate_same:
  assumes "f c s = Inr (r, s1)" and "f c s1 = Inr (r, s1)"
  shows "run_calls f (replicate (Suc n) c) s = Inr (replicate (Suc n) r, s1)"
proof -
  have "run_calls f (replicate n c) s1 = Inr (replicate n r, s1)"
    using assms(2) by (induction n) auto
  with assms(1) show ?thesis by simp
qed

lemma run_calls_replicate_identical:
  assumes idem: "\<And>r s1. f c s = Inr (r, s1) \<Longrightarrow> f c s1 = Inr (r, s1)"
    and run: "run_calls f (replicate n c) s = Inr (rs, s')"
  shows "\<forall>r \<in> set rs. r = hd rs"
proof (cases n)
  case 0
  with run show ?thesis by simp
next
  case (Suc m)
  from run Suc obtain r s1 where f: "f c s = Inr (r, s1)"
    by (auto split: sum.splits)
  from run_calls_replicate_same [where f = f and c = c and s = s and n = m, OF f idem [OF f]] run Suc
  have "rs = replicate (Suc m) r" by simp
  then show ?thesis by auto
qed

lemma run_calls_preserves:
  assumes step: "\<And>c s r s1. c \<in> set cs \<Longrightarrow> P s \<Longrightarrow> f c s = Inr (r, s1) \<Longrightarrow> P s1 \<and> Q s1 = Q s"
    and run: "run_calls f cs s = Inr (rs, s')" and P: "P s"
  shows "P s' \<and> Q s' = Q s"
  using step run P
proof (induction cs arbitrary: s rs)
  case Nil
  then show ?case by simp
next
  case (Cons c cs)
  from Cons.prems(2) obtain r s1 rs1 where f: "f c s = Inr (r, s1)"
    and rest: "run_calls f cs s1 = Inr (rs1, s')"
    by (auto split: sum.splits)
  from Cons.prems(1) [of c s r s1] f Cons.prems(3) have 1: "P s1" "Q s1 = Q s" by auto
  have "P s' \<and> Q s' = Q s1"
    by (rule Cons.IH [OF _ rest 1(1)]) (use Cons.prems(1) in auto)
  with 1 show ?case by simp
qed

subsection \<open>Fixed window\<close>

lemma fw_peek_store: "fw_peek L W key c s = Inr (r, s') \<Longrightarrow> s' = s"
  by (auto simp: fw_peek_def Let_def split: prod.splits sum.splits option.splits if_splits)

lemma fw_peeks_store: "run_calls (fw_peek L W key) cs s = Inr (rs, s') \<Longrightarrow> s' = s"
proof (induction cs arbitrary: s rs)
  case Nil
  then show ?case by simp
next
  case (Cons c cs)
  from Cons.prems obtain r s1 rs1 where f: "fw_peek L W key c s = Inr (r, s1)"
    and rest: "run_calls (fw_peek L W key) cs s1 = Inr (rs1, s')"
    by (auto split: sum.splits)
  from fw_peek_store [OF f] Cons.IH [OF rest] show ?case by simp
qed

lemma fw_peeks_identical:
  assumes "run_calls (fw_peek L W key) (replicate n c) s = Inr (rs, s')"
  shows "\<forall>r \<in> set rs. r = hd rs"
proof (rule run_calls_replicate_identical [OF _ assms])
  fix r s1 assume "fw_peek L W key c s = Inr (r, s1)"
  then show "fw_peek L W key c s1 = Inr (r, s1)"
    using fw_peek_store by metis
qed


subsection \<open>Sliding window\<close>

lemma filter_score_twice:
  assumes "(a::int) \<le> b"
  shows "filter (\<lambda>p. \<not> snd p \<le> b) (filter (\<lambda>p. \<not> snd p \<le> a) xs) = filter (\<lambda>p. \<not> snd p \<le> b) xs"
  using assms by (induction xs) auto

lemma filter_score_empty:
  assumes "(a::int) \<le> b" and "filter (\<lambda>p. \<not> snd p \<le> a) xs = []"
  shows "filter (\<lambda>p. \<not> snd p \<le> b) xs = []"
  using assms by (induction xs) (auto split: if_splits)

lemma sw_peek_idem:
  "sw_peek L W key t (snd (sw_peek L W key t s)) = sw_peek L W key t s"
proof (cases "live s t key")
  case None
  then show ?thesis
    by (simp add: sw_peek_def redis_zremrangebyscore_def redis_zcard_def Let_def)
next
  case (Some e)
  then have sk: "s key = Some e" by (auto simp: live_def split: option.splits if_splits)
  show ?thesis
  proof (cases "val e")
    case (RZSet xs)
    show ?thesis
    proof (cases "filter (\<lambda>p. \<not> snd p \<le> t - W * 1000) xs = []")
      case True
      with Some RZSet show ?thesis
        by (simp add: sw_peek_def redis_zremrangebyscore_def redis_zcard_def Let_def live_def)
    next
      case False
      with Some RZSet sk show ?thesis
        by (auto simp: sw_peek_def redis_zremrangebyscore_def redis_zcard_def Let_def live_def
            split: option.splits if_splits)
    qed
  next
    case (RStr x)
    with Some show ?thesis
      by (simp add: sw_peek_def redis_zremrangebyscore_def redis_zcard_def Let_def)
  next
    case (RHash x)
    with Some show ?thesis
      by (simp add: sw_peek_def redis_zremrangebyscore_def redis_zcard_def Let_def)
  qed
qed


lemma sw_limit_outcome:
  "outcome (sw_limit L W key (t, rnd) s) =
     (case live s t key of
        None \<Rightarrow> Inr \<lparr>allowed = (0 < L), remaining = max 0 (L - (if 0 < L then 1 else 0)),
                    limit = L, retryAfter = (if 0 < L then 0 else W)\<rparr>
      | Some e \<Rightarrow>
          (case val e of
             RZSet xs \<Rightarrow>
               let n = int (length (filter (\<lambda>p. \<not> snd p \<le> t - W * 1000) xs))
               in Inr \<lparr>allowed = (n < L), remaining = max 0 (L - (if n < L then n + 1 else n)),
                       limit = L, retryAfter = (if n < L then 0 else W)\<rparr>
           | _ \<Rightarrow> Inl WRONGTYPE))"
proof (cases "live s t key")
  case None
  then show ?thesis
    by (simp add: outcome_def sw_limit_def sliding_window_script_def redis_zremrangebyscore_def
        redis_zcard_def redis_zadd_def Let_def)
next
  case (Some e)
  then have sk: "s key = Some e" by (auto simp: live_def split: option.splits if_splits)
  show ?thesis
  proof (cases "val e")
    case (RZSet xs)
    show ?thesis
    proof (cases "filter (\<lambda>p. \<not> snd p \<le> t - W * 1000) xs = []")
      case True
      with Some RZSet show ?thesis
        by (simp add: outcome_def sw_limit_def sliding_window_script_def redis_zremrangebyscore_def
            redis_zcard_def redis_zadd_def Let_def live_def)
    next
      case False
      have l: "live (s(key \<mapsto> e\<lparr>val := RZSet (filter (\<lambda>p. \<not> snd p \<le> t - W * 1000) xs)\<rparr>)) t key
                 = Some (e\<lparr>val := RZSet (filter (\<lambda>p. \<not> snd p \<le> t - W * 1000) xs)\<rparr>)"
        using Some sk by (auto simp: live_def split: option.splits if_splits)
      from False Some RZSet l show ?thesis
        by (simp add: outcome_def sw_limit_def sliding_window_script_def redis_zremrangebyscore_def
            redis_zcard_def redis_zadd_def Let_def)
    qed
  next
    case (RStr x)
    with Some show ?thesis
      by (simp add: outcome_def sw_limit_def sliding_window_script_def redis_zremrangebyscore_def Let_def)
  next
    case (RHash x)
    with Some show ?thesis
      by (simp add: outcome_def sw_limit_def sliding_window_script_def redis_zremrangebyscore_def Let_def)
  qed
qed

lemma sw_peek_then_limit:
  assumes "tp \<le> t"
  shows "outcome (sw_limit L W key (t, rnd) (snd (sw_peek L W key tp s))) =
         outcome (sw_limit L W key (t, rnd) s)"
proof (cases "live s tp key")
  case None
  then show ?thesis
    by (simp add: sw_peek_def redis_zremrangebyscore_def Let_def)
next
  case (Some e)
  then have sk: "s key = Some e" by (auto simp: live_def split: option.splits if_splits)
  show ?thesis
  proof (cases "val e")
    case (RZSet xs)
    let ?kp = "filter (\<lambda>p. \<not> snd p \<le> tp - W * 1000) xs"
    have le: "tp - W * 1000 \<le> t - W * 1000" using assms by simp
    show ?thesis
    proof (cases "?kp = []")
      case True
      then have s1: "snd (sw_peek L W key tp s) = s(key := None)"
        using Some RZSet by (simp add: sw_peek_def redis_zremrangebyscore_def Let_def)
      have kt: "filter (\<lambda>p. \<not> snd p \<le> t - W * 1000) xs = []"
        by (rule filter_score_empty [OF le True])
      show ?thesis
        unfolding sw_limit_outcome s1 using sk RZSet kt
        by (simp add: live_def split: option.splits)
    next
      case False
      then have s1: "snd (sw_peek L W key tp s) = s(key \<mapsto> e\<lparr>val := RZSet ?kp\<rparr>)"
        using Some RZSet by (simp add: sw_peek_def redis_zremrangebyscore_def Let_def)
      have kt: "filter (\<lambda>p. \<not> snd p \<le> t - W * 1000) ?kp = filter (\<lambda>p. \<not> snd p \<le> t - W * 1000) xs"
        by (rule filter_score_twice [OF le])
      show ?thesis
        unfolding sw_limit_outcome s1 using sk RZSet kt
        by (simp add: live_def split: option.splits)
    qed
  next
    case (RStr x)
    with Some show ?thesis
      by (simp add: sw_peek_def redis_zremrangebyscore_def Let_def)
  next
    case (RHash x)
    with Some show ?thesis
      by (simp add: sw_peek_def redis_zremrangebyscore_def Let_def)
  qed
qed

lemma sw_peeks_then_limit:
  assumes "\<forall>tp \<in> set ts. tp \<le> t"
    and "run_calls (sw_peek_call L W key) ts s = Inr (rs, s')"
  shows "outcome (sw_limit L W key (t, rnd) s') = outcome (sw_limit L W key (t, rnd) s)"
  using assms
proof (induction ts arbitrary: s rs)
  case Nil
  then show ?case by simp
next
  case (Cons tp ts)
  have h: "sw_peek_call L W key tp s = Inr (sw_peek L W key tp s)"
    by (simp add: sw_peek_call_def)
  from Cons.prems(2) h obtain rs1 where
    rest: "run_calls (sw_peek_call L W key) ts (snd (sw_peek L W key tp s)) = Inr (rs1, s')"
    by (auto split: sum.splits prod.splits)
  have "outcome (sw_limit L W key (t, rnd) s') =
        outcome (sw_limit L W key (t, rnd) (snd (sw_peek L W key tp s)))"
    by (rule Cons.IH [OF _ rest]) (use Cons.prems(1) in simp)
  also have "\<dots> = outcome (sw_limit L W key (t, rnd) s)"
    by (rule sw_peek_then_limit) (use Cons.prems(1) in simp)
  finally show ?case .
qed

lemma sw_peeks_identical:
  assumes "run_calls (sw_peek_call L W key) (replicate n t) s = Inr (rs, s')"
  shows "\<forall>r \<in> set rs. r = hd rs"
proof (rule run_calls_replicate_identical [OF _ assms])
  fix r s1 assume "sw_peek_call L W key t s = Inr (r, s1)"
  then have "sw_peek L W key t s = (r, s1)" by (simp add: sw_peek_call_def)
  with sw_peek_idem [of L W key t s] show "sw_peek_call L W key t s1 = Inr (r, s1)"
    by (simp add: sw_peek_call_def)
qed

lemma sw_peeks_return: "\<exists>rs s'. run_calls (sw_peek_call L W key) ts s = Inr (rs, s')"
proof (induction ts arbitrary: s)
  case Nil
  then show ?case by simp
next
  case (Cons tp ts)
  have h: "sw_peek_call L W key tp s = Inr (sw_peek L W key tp s)"
    by (simp add: sw_peek_call_def)
  from Cons [of "snd (sw_peek L W key tp s)"] h show ?case
    by (auto split: prod.splits)
qed


subsection \<open>Peek purity\<close>

text \<open>
  Claim C4, as the code has it, for the fixed window and the sliding window. Any number
  of \<open>peek\<close> calls that observe the same clock value return identical results, and
  \<open>peek\<close> calls before a \<open>limit\<close> call do not change what that \<open>limit\<close> call returns.
  For the fixed window the store is not written at all. For the sliding window the peeks
  prune the log, they observe times not later than the \<open>limit\<close> call, and that call
  prunes at least as much. The token bucket is not covered: its \<open>peek\<close> runs the script
  of \<open>limit\<close> and writes the refilled token count, \<open>last_refill\<close> and the expiry back.
\<close>

theorem peek_purity:
  "(\<forall>L W key c cs n s rs s'.
      (run_calls (fw_peek L W key) (replicate n c) s = Inr (rs, s') \<longrightarrow> (\<forall>x \<in> set rs. x = hd rs)) \<and>
      (run_calls (fw_peek L W key) cs s = Inr (rs, s') \<longrightarrow>
         fw_limit L W key c s' = fw_limit L W key c s)) \<and>
   (\<forall>L W key t rnd ts n s.
      (\<exists>rs s'. run_calls (sw_peek_call L W key) (replicate n t) s = Inr (rs, s') \<and>
                (\<forall>x \<in> set rs. x = hd rs)) \<and>
      ((\<forall>tp \<in> set ts. tp \<le> t) \<longrightarrow>
         (\<exists>rs s'. run_calls (sw_peek_call L W key) ts s = Inr (rs, s') \<and>
                   outcome (sw_limit L W key (t, rnd) s') = outcome (sw_limit L W key (t, rnd) s))))"
proof (intro conjI allI impI)
  fix L W key and c :: "int \<times> int" and cs :: "(int \<times> int) list" and n s rs s'
  assume "run_calls (fw_peek L W key) (replicate n c) s = Inr (rs, s')"
  then show "\<forall>x \<in> set rs. x = hd rs" by (rule fw_peeks_identical)
next
  fix L W key and c :: "int \<times> int" and cs :: "(int \<times> int) list" and n :: nat and s rs s'
  assume "run_calls (fw_peek L W key) cs s = Inr (rs, s')"
  then have "s' = s" by (rule fw_peeks_store)
  then show "fw_limit L W key c s' = fw_limit L W key c s" by simp
next
  fix L W key t and rnd :: string and ts :: "int list" and n s
  from sw_peeks_return [of L W key "replicate n t" s]
  obtain rs s' where run: "run_calls (sw_peek_call L W key) (replicate n t) s = Inr (rs, s')"
    by blast
  from sw_peeks_identical [OF run] run
  show "\<exists>rs s'. run_calls (sw_peek_call L W key) (replicate n t) s = Inr (rs, s') \<and>
                (\<forall>x \<in> set rs. x = hd rs)" by blast
next
  fix L W key t rnd and ts :: "int list" and n :: nat and s
  assume le: "\<forall>tp \<in> set ts. tp \<le> t"
  from sw_peeks_return [of L W key ts s]
  obtain rs s' where run: "run_calls (sw_peek_call L W key) ts s = Inr (rs, s')" by blast
  from sw_peeks_then_limit [OF le run, of rnd] run
  show "\<exists>rs s'. run_calls (sw_peek_call L W key) ts s = Inr (rs, s') \<and>
                   outcome (sw_limit L W key (t, rnd) s') = outcome (sw_limit L W key (t, rnd) s)"
    by blast
qed

text \<open>An instance of each part: a fixed-window counter at its limit, peeked three times,
  and a sliding-window log of one request, peeked while it ages out and then limited.\<close>

theorem peek_purity_witness:
  "run_calls (fw_peek 1 60 ''rl:w'') (replicate 3 (1708617625000, 1708617625250))
      (empty_store(''rl:w:1708617600'' \<mapsto> \<lparr>val = RStr ''1'', expireAt = Some 1708617684000\<rparr>))
     = Inr (replicate 3 \<lparr>allowed = False, remaining = 0, limit = 1, retryAfter = 35\<rparr>,
            empty_store(''rl:w:1708617600'' \<mapsto> \<lparr>val = RStr ''1'', expireAt = Some 1708617684000\<rparr>)) \<and>
   list_all (\<lambda>x. x = hd (replicate 3 \<lparr>allowed = False, remaining = 0, limit = 1, retryAfter = 35\<rparr>))
      (replicate 3 \<lparr>allowed = False, remaining = 0, limit = 1, retryAfter = 35\<rparr>) \<and>
   (1708617624500 :: int) \<le> 1708617625000 \<and>
   (\<exists>rs s'. run_calls (sw_peek_call 1 1 ''rl:v'') [1708617624500, 1708617625000]
                (empty_store(''rl:v'' \<mapsto> \<lparr>val = RZSet [(''1708617624000:k3j9x0aa'', 1708617624000)],
                                              expireAt = Some 1708617625000\<rparr>))
              = Inr (rs, s') \<and>
             outcome (sw_limit 1 1 ''rl:v'' (1708617625000, ''p07zq1bc'') s') =
             outcome (sw_limit 1 1 ''rl:v'' (1708617625000, ''p07zq1bc'')
                (empty_store(''rl:v'' \<mapsto> \<lparr>val = RZSet [(''1708617624000:k3j9x0aa'', 1708617624000)],
                                              expireAt = Some 1708617625000\<rparr>))))"
proof -
  let ?s = "empty_store(''rl:w:1708617600'' \<mapsto> \<lparr>val = RStr ''1'', expireAt = Some 1708617684000\<rparr>)"
  let ?r = "\<lparr>allowed = False, remaining = 0, limit = 1, retryAfter = 35\<rparr>"
  let ?v = "empty_store(''rl:v'' \<mapsto> \<lparr>val = RZSet [(''1708617624000:k3j9x0aa'', 1708617624000)],
                                       expireAt = Some 1708617625000\<rparr>)"
  have wk: "windowKey ''rl:w'' 60 1708617625000 = ''rl:w:1708617600''"
    by (simp add: windowKey_def windowStart_def show_int_def show_nat.simps digit_char_def)
  have pk: "fw_peek 1 60 ''rl:w'' (1708617625000, 1708617625250) ?s = Inr (?r, ?s)"
    by (simp add: fw_peek_def wk redis_get_def live_def empty_store_def parseInt10_def dec_val_def
        is_digit_def digit_val_def secondsUntilWindowEnd_def Let_def)
  have run: "run_calls (fw_peek 1 60 ''rl:w'') (replicate 3 (1708617625000, 1708617625250)) ?s
               = Inr (replicate 3 ?r, ?s)"
    using run_calls_replicate_same [where f = "fw_peek 1 60 ''rl:w''"
        and c = "(1708617625000, 1708617625250)" and s = ?s and n = 2, OF pk pk]
    by (simp add: eval_nat_numeral)
  have a: "list_all (\<lambda>x. x = hd (replicate 3 ?r)) (replicate 3 ?r)"
    using peek_purity [THEN conjunct1, rule_format, THEN conjunct1, rule_format, OF run]
    unfolding list_all_iff by blast
  have le: "(1708617624500 :: int) \<le> 1708617625000" by simp
  have b: "\<exists>rs s'. run_calls (sw_peek_call 1 1 ''rl:v'') [1708617624500, 1708617625000] ?v
              = Inr (rs, s') \<and>
             outcome (sw_limit 1 1 ''rl:v'' (1708617625000, ''p07zq1bc'') s') =
             outcome (sw_limit 1 1 ''rl:v'' (1708617625000, ''p07zq1bc'') ?v)"
    by (rule peek_purity [THEN conjunct2, rule_format, THEN conjunct2, rule_format]) auto
  from run a le b show ?thesis by blast
qed

text \<open>The claim as stated fails for peeks at different times: with limit 1 and a window
  of one second, a \<open>limit\<close> call fills the log, a \<open>peek\<close> half a second later finds it
  full, and a \<open>peek\<close> one second later finds it empty.\<close>

theorem peek_purity_counterexample:
  "sw_limit 1 1 ''rl:v'' (1708617624000, ''k3j9x0aa'') empty_store =
     Inr (\<lparr>allowed = True, remaining = 0, limit = 1, retryAfter = 0\<rparr>,
          empty_store(''rl:v'' \<mapsto> \<lparr>val = RZSet [(''1708617624000:k3j9x0aa'', 1708617624000)],
                                        expireAt = Some 1708617625000\<rparr>)) \<and>
   call_results (run_calls (sw_peek_call 1 1 ''rl:v'') [1708617624500, 1708617625000]
      (empty_store(''rl:v'' \<mapsto> \<lparr>val = RZSet [(''1708617624000:k3j9x0aa'', 1708617624000)],
                                    expireAt = Some 1708617625000\<rparr>)))
     = [\<lparr>allowed = False, remaining = 0, limit = 1, retryAfter = 1\<rparr>,
        \<lparr>allowed = True, remaining = 1, limit = 1, retryAfter = 0\<rparr>]"
  by (simp add: sw_limit_def sliding_window_script_def redis_zadd_def redis_expire_def requestId_def
      show_int_def show_nat.simps digit_char_def
      sw_peek_call_def sw_peek_def redis_zremrangebyscore_def redis_zcard_def live_def
      Let_def call_results_def empty_store_def)

section \<open>RateLimiter: construction\<close>

lemma rl_call_unset:
  "strategy rl = None \<Longrightarrow>
   rl_limit rl key ob s = Inl TypeError \<and> rl_peek rl key ob s = Inl TypeError \<and>
   rl_reset rl key ob s = Inl TypeError"
  by (simp add: rl_limit_def rl_peek_def rl_reset_def)

text \<open>With a refill rate of 0 the script fails in every store: on a key of another type,
  on a hash without \<open>last_refill\<close>, and otherwise at \<^verbatim>\<open>EXPIRE\<close>.\<close>

lemma token_bucket_script_rate_0:
  "\<exists>e. token_bucket_script s clock key capacity 0 now_ms consume = Inl e"
  by (auto simp: token_bucket_script_def Let_def split: sum.splits option.splits prod.splits)

lemma tb_run_rate_0: "\<exists>e. tb_run C 0 key t c s = Inl e"
proof -
  from token_bucket_script_rate_0 [of s t key "of_int C" t c]
  obtain e where "token_bucket_script s t key (of_int C) 0 t c = Inl e" by blast
  then show ?thesis by (simp add: tb_run_def)
qed

text \<open>
  Claim C7, as the code has it. The constructor returns an instance for every
  configuration and checks none of its values. For the discriminants \<open>fixed-window\<close>,
  \<open>sliding-window\<close> and \<open>token-bucket\<close> the instance holds that strategy with the
  configured \<open>limit\<close> and \<open>window\<close>, or \<open>capacity\<close> and \<open>refillRate\<close>, under the
  configured prefix (\<open>rl\<close> when none is given); \<open>limit\<close> and \<open>peek\<close> are the strategy's
  own on the prefixed key, and \<open>reset\<close> returns. For any other discriminant the
  strategy is left unset. What is wrong with a configuration shows at call time: with
  an unset strategy \<open>limit\<close>, \<open>peek\<close> and \<open>reset\<close> each raise a TypeError, and with a
  token bucket of refill rate 0 every \<open>limit\<close> and every \<open>peek\<close> raises the store's error.
\<close>

theorem RateLimiter_configuration_error:
  "\<exists>rl. RateLimiter_new config = Inr rl \<and>
        prefix rl = (case cfg_prefix config of None \<Rightarrow> ''rl'' | Some p \<Rightarrow> p) \<and>
        (cfg_strategy config = ''fixed-window'' \<longrightarrow>
           strategy rl = Some (FixedWindow (cfg_limit config) (cfg_window config)) \<and>
           rl_limit rl key ob s =
             store_error (fw_limit (cfg_limit config) (cfg_window config) (prefixKey (prefix rl) key)
                            (ob_now ob, ob_now2 ob) s) \<and>
           rl_peek rl key ob s =
             store_error (fw_peek (cfg_limit config) (cfg_window config) (prefixKey (prefix rl) key)
                            (ob_now ob, ob_now2 ob) s) \<and>
           (\<exists>s'. rl_reset rl key ob s = Inr s')) \<and>
        (cfg_strategy config = ''sliding-window'' \<longrightarrow>
           strategy rl = Some (SlidingWindow (cfg_limit config) (cfg_window config)) \<and>
           rl_limit rl key ob s =
             store_error (sw_limit (cfg_limit config) (cfg_window config) (prefixKey (prefix rl) key)
                            (ob_now ob, ob_rnd ob) s) \<and>
           rl_peek rl key ob s =
             Inr (sw_peek (cfg_limit config) (cfg_window config) (prefixKey (prefix rl) key) (ob_now ob) s) \<and>
           (\<exists>s'. rl_reset rl key ob s = Inr s')) \<and>
        (cfg_strategy config = ''token-bucket'' \<longrightarrow>
           strategy rl = Some (TokenBucket (cfg_capacity config) (cfg_refillRate config)) \<and>
           rl_limit rl key ob s =
             store_error (tb_limit (cfg_capacity config) (cfg_refillRate config) (prefixKey (prefix rl) key)
                            (ob_now ob) s) \<and>
           rl_peek rl key ob s =
             store_error (tb_peek (cfg_capacity config) (cfg_refillRate config) (prefixKey (prefix rl) key)
                            (ob_now ob) s) \<and>
           (\<exists>s'. rl_reset rl key ob s = Inr s') \<and>
           (cfg_refillRate config = 0 \<longrightarrow>
              (\<exists>e. rl_limit rl key ob s = Inl (StoreError e)) \<and>
              (\<exists>e. rl_peek rl key ob s = Inl (StoreError e)))) \<and>
        (\<not> known_strategy (cfg_strategy config) \<longrightarrow>
           strategy rl = None \<and>
           rl_limit rl key ob s = Inl TypeError \<and> rl_peek rl key ob s = Inl TypeError \<and>
           rl_reset rl key ob s = Inl TypeError)"
proof -
  define pre where "pre = (case cfg_prefix config of None \<Rightarrow> ''rl'' | Some p \<Rightarrow> p)"
  define strat where "strat =
     (if cfg_strategy config = ''fixed-window''
        then Some (FixedWindow (cfg_limit config) (cfg_window config))
      else if cfg_strategy config = ''sliding-window''
        then Some (SlidingWindow (cfg_limit config) (cfg_window config))
      else if cfg_strategy config = ''token-bucket''
        then Some (TokenBucket (cfg_capacity config) (cfg_refillRate config))
      else None)"
  define rl where "rl = \<lparr>strategy = strat, prefix = pre\<rparr>"
  have new: "RateLimiter_new config = Inr rl"
    by (simp add: RateLimiter_new_def Let_def rl_def strat_def pre_def)
  have pre: "prefix rl = (case cfg_prefix config of None \<Rightarrow> ''rl'' | Some p \<Rightarrow> p)"
    by (simp add: rl_def pre_def)
  have fw: "cfg_strategy config = ''fixed-window'' \<longrightarrow>
           strategy rl = Some (FixedWindow (cfg_limit config) (cfg_window config)) \<and>
           rl_limit rl key ob s =
             store_error (fw_limit (cfg_limit config) (cfg_window config) (prefixKey (prefix rl) key)
                            (ob_now ob, ob_now2 ob) s) \<and>
           rl_peek rl key ob s =
             store_error (fw_peek (cfg_limit config) (cfg_window config) (prefixKey (prefix rl) key)
                            (ob_now ob, ob_now2 ob) s) \<and>
           (\<exists>s'. rl_reset rl key ob s = Inr s')"
    by (simp add: rl_def strat_def rl_limit_def rl_peek_def rl_reset_def)
  have sw: "cfg_strategy config = ''sliding-window'' \<longrightarrow>
           strategy rl = Some (SlidingWindow (cfg_limit config) (cfg_window config)) \<and>
           rl_limit rl key ob s =
             store_error (sw_limit (cfg_limit config) (cfg_window config) (prefixKey (prefix rl) key)
                            (ob_now ob, ob_rnd ob) s) \<and>
           rl_peek rl key ob s =
             Inr (sw_peek (cfg_limit config) (cfg_window config) (prefixKey (prefix rl) key) (ob_now ob) s) \<and>
           (\<exists>s'. rl_reset rl key ob s = Inr s')"
    by (simp add: rl_def strat_def rl_limit_def rl_peek_def rl_reset_def)
  have tb: "cfg_strategy config = ''token-bucket'' \<longrightarrow>
           strategy rl = Some (TokenBucket (cfg_capacity config) (cfg_refillRate config)) \<and>
           rl_limit rl key ob s =
             store_error (tb_limit (cfg_capacity config) (cfg_refillRate config) (prefixKey (prefix rl) key)
                            (ob_now ob) s) \<and>
           rl_peek rl key ob s =
             store_error (tb_peek (cfg_capacity config) (cfg_refillRate config) (prefixKey (prefix rl) key)
                            (ob_now ob) s) \<and>
           (\<exists>s'. rl_reset rl key ob s = Inr s')"
    by (simp add: rl_def strat_def rl_limit_def rl_peek_def rl_reset_def)
  have tb0: "cfg_strategy config = ''token-bucket'' \<longrightarrow> cfg_refillRate config = 0 \<longrightarrow>
              (\<exists>e. rl_limit rl key ob s = Inl (StoreError e)) \<and>
              (\<exists>e. rl_peek rl key ob s = Inl (StoreError e))"
  proof (intro impI)
    assume d: "cfg_strategy config = ''token-bucket''" and z: "cfg_refillRate config = 0"
    from tb_run_rate_0 [of "cfg_capacity config" "prefixKey (prefix rl) key" "ob_now ob" True s]
    obtain e1 where e1: "tb_limit (cfg_capacity config) 0 (prefixKey (prefix rl) key) (ob_now ob) s = Inl e1"
      by (auto simp: tb_limit_def)
    from tb_run_rate_0 [of "cfg_capacity config" "prefixKey (prefix rl) key" "ob_now ob" False s]
    obtain e2 where e2: "tb_peek (cfg_capacity config) 0 (prefixKey (prefix rl) key) (ob_now ob) s = Inl e2"
      by (auto simp: tb_peek_def)
    from tb d z e1 e2 show "(\<exists>e. rl_limit rl key ob s = Inl (StoreError e)) \<and>
              (\<exists>e. rl_peek rl key ob s = Inl (StoreError e))"
      by (simp add: store_error_def)
  qed
  have un: "\<not> known_strategy (cfg_strategy config) \<longrightarrow>
           strategy rl = None \<and>
           rl_limit rl key ob s = Inl TypeError \<and> rl_peek rl key ob s = Inl TypeError \<and>
           rl_reset rl key ob s = Inl TypeError"
  proof
    assume "\<not> known_strategy (cfg_strategy config)"
    then have n: "strategy rl = None" by (simp add: known_strategy_def rl_def strat_def)
    with rl_call_unset [OF n, of key ob s] show "strategy rl = None \<and>
           rl_limit rl key ob s = Inl TypeError \<and> rl_peek rl key ob s = Inl TypeError \<and>
           rl_reset rl key ob s = Inl TypeError" by simp
  qed
  from new pre fw sw tb tb0 un show ?thesis by blast
qed

text \<open>Three instances: a fixed-window configuration, a token bucket with refill rate 0,
  and a discriminant outside the type.\<close>

theorem RateLimiter_configuration_error_witness:
  "(\<exists>rl. RateLimiter_new \<lparr>cfg_prefix = None, cfg_strategy = ''fixed-window'', cfg_limit = 3,
                            cfg_window = 60, cfg_capacity = 0, cfg_refillRate = 0\<rparr> = Inr rl \<and>
      strategy rl = Some (FixedWindow 3 60) \<and> prefix rl = ''rl'' \<and>
      rl_limit rl ''u1'' \<lparr>ob_now = 1000, ob_now2 = 1001, ob_rnd = []\<rparr> empty_store =
        store_error (fw_limit 3 60 ''rl:u1'' (1000, 1001) empty_store)) \<and>
   (\<exists>rl. RateLimiter_new \<lparr>cfg_prefix = Some ''api'', cfg_strategy = ''token-bucket'', cfg_limit = 0,
                            cfg_window = 0, cfg_capacity = 2, cfg_refillRate = 0\<rparr> = Inr rl \<and>
      strategy rl = Some (TokenBucket 2 0) \<and> prefix rl = ''api'' \<and>
      (\<exists>e. rl_limit rl ''u1'' \<lparr>ob_now = 1000, ob_now2 = 1001, ob_rnd = []\<rparr> empty_store
              = Inl (StoreError e))) \<and>
   \<not> known_strategy ''leaky-bucket'' \<and>
   (\<exists>rl. RateLimiter_new \<lparr>cfg_prefix = None, cfg_strategy = ''leaky-bucket'', cfg_limit = 3,
                            cfg_window = 60, cfg_capacity = 0, cfg_refillRate = 0\<rparr> = Inr rl \<and>
      strategy rl = None \<and>
      rl_limit rl ''u1'' \<lparr>ob_now = 1000, ob_now2 = 1001, ob_rnd = []\<rparr> empty_store = Inl TypeError)"
proof -
  have u: "\<not> known_strategy ''leaky-bucket''"
    by (simp add: known_strategy_def)
  from RateLimiter_configuration_error [of "\<lparr>cfg_prefix = None, cfg_strategy = ''fixed-window'',
      cfg_limit = 3, cfg_window = 60, cfg_capacity = 0, cfg_refillRate = 0\<rparr>"
      "''u1''" "\<lparr>ob_now = 1000, ob_now2 = 1001, ob_rnd = []\<rparr>" empty_store]
  have a: "\<exists>rl. RateLimiter_new \<lparr>cfg_prefix = None, cfg_strategy = ''fixed-window'', cfg_limit = 3,
                            cfg_window = 60, cfg_capacity = 0, cfg_refillRate = 0\<rparr> = Inr rl \<and>
      strategy rl = Some (FixedWindow 3 60) \<and> prefix rl = ''rl'' \<and>
      rl_limit rl ''u1'' \<lparr>ob_now = 1000, ob_now2 = 1001, ob_rnd = []\<rparr> empty_store =
        store_error (fw_limit 3 60 ''rl:u1'' (1000, 1001) empty_store)"
    by (auto simp: prefixKey_def)
  from RateLimiter_configuration_error [of "\<lparr>cfg_prefix = Some ''api'', cfg_strategy = ''token-bucket'',
      cfg_limit = 0, cfg_window = 0, cfg_capacity = 2, cfg_refillRate = 0\<rparr>"
      "''u1''" "\<lparr>ob_now = 1000, ob_now2 = 1001, ob_rnd = []\<rparr>" empty_store]
  have b: "\<exists>rl. RateLimiter_new \<lparr>cfg_prefix = Some ''api'', cfg_strategy = ''token-bucket'', cfg_limit = 0,
                            cfg_window = 0, cfg_capacity = 2, cfg_refillRate = 0\<rparr> = Inr rl \<and>
      strategy rl = Some (TokenBucket 2 0) \<and> prefix rl = ''api'' \<and>
      (\<exists>e. rl_limit rl ''u1'' \<lparr>ob_now = 1000, ob_now2 = 1001, ob_rnd = []\<rparr> empty_store
              = Inl (StoreError e))"
    by auto
  from RateLimiter_configuration_error [of "\<lparr>cfg_prefix = None, cfg_strategy = ''leaky-bucket'',
      cfg_limit = 3, cfg_window = 60, cfg_capacity = 0, cfg_refillRate = 0\<rparr>"
      "''u1''" "\<lparr>ob_now = 1000, ob_now2 = 1001, ob_rnd = []\<rparr>" empty_store] u
  have c: "\<exists>rl. RateLimiter_new \<lparr>cfg_prefix = None, cfg_strategy = ''leaky-bucket'', cfg_limit = 3,
                            cfg_window = 60, cfg_capacity = 0, cfg_refillRate = 0\<rparr> = Inr rl \<and>
      strategy rl = None \<and>
      rl_limit rl ''u1'' \<lparr>ob_now = 1000, ob_now2 = 1001, ob_rnd = []\<rparr> empty_store = Inl TypeError"
    by auto
  from u a b c show ?thesis by blast
qed

text \<open>The claim as stated fails in both halves. With the discriminant \<open>leaky-bucket\<close> the
  constructor returns an instance and the error comes from the first call. With a token
  bucket of refill rate 0 the constructor returns an instance and the first \<open>limit\<close>
  raises when the script reaches \<^verbatim>\<open>EXPIRE\<close>.\<close>

theorem RateLimiter_configuration_error_counterexample:
  "RateLimiter_new \<lparr>cfg_prefix = None, cfg_strategy = ''leaky-bucket'', cfg_limit = 3,
                     cfg_window = 60, cfg_capacity = 0, cfg_refillRate = 0\<rparr>
     = Inr \<lparr>strategy = None, prefix = ''rl''\<rparr> \<and>
   rl_limit \<lparr>strategy = None, prefix = ''rl''\<rparr> ''u1'' \<lparr>ob_now = 1000, ob_now2 = 1001, ob_rnd = []\<rparr> empty_store
     = Inl TypeError \<and>
   RateLimiter_new \<lparr>cfg_prefix = None, cfg_strategy = ''token-bucket'', cfg_limit = 0,
                     cfg_window = 0, cfg_capacity = 2, cfg_refillRate = 0\<rparr>
     = Inr \<lparr>strategy = Some (TokenBucket 2 0), prefix = ''rl''\<rparr> \<and>
   rl_limit \<lparr>strategy = Some (TokenBucket 2 0), prefix = ''rl''\<rparr> ''u1''
      \<lparr>ob_now = 1000, ob_now2 = 1001, ob_rnd = []\<rparr> empty_store
     = Inl (StoreError NotAnInteger)"
  by (simp add: RateLimiter_new_def rl_limit_def store_error_def tb_limit_def tb_run_def
      token_bucket_script_def redis_hget_def redis_hset_def live_def empty_store_def Let_def)

section \<open>Cache: get after set\<close>

lemma show_int_hd: "hd (show_int n) = CHR ''-'' \<or> is_digit (hd (show_int n))"
  using hd_show_nat_digit [of "nat n"] by (simp add: show_int_def)

lemma show_int_not_word:
  "show_int n \<noteq> ''null''" "show_int n \<noteq> ''true''" "show_int n \<noteq> ''false''"
proof -
  have h: "hd (show_int n) \<notin> {CHR ''n'', CHR ''t'', CHR ''f''}"
    using show_int_hd [of n] by (auto simp: is_digit_def)
  show "show_int n \<noteq> ''null''" using h by (cases "show_int n") auto
  show "show_int n \<noteq> ''true''" using h by (cases "show_int n") auto
  show "show_int n \<noteq> ''false''" using h by (cases "show_int n") auto
qed

lemma JSON_roundtrip: "JSON_parse (JSON_stringify v) = Inr v"
proof (cases v)
  case None
  then show ?thesis by (simp add: JSON_parse_def JSON_stringify_def)
next
  case (Some a)
  then show ?thesis
    by (cases a) (simp_all add: JSON_parse_def JSON_stringify_def show_int_not_word redis_int_show_int)
qed

lemma cache_get_absent: "cache_get c key t (s(cache_key c key := None)) = Inr None"
  by (simp add: cache_get_def redis_get_def live_def)

lemma cache_get_set:
  assumes rt: "c_deserialize c (c_serialize c v) = Inr v"
    and st: "cache_set c key v ttl t0 s = Inr s1"
    and fresh: "(case (case ttl of None \<Rightarrow> c_defaultTTL c | Some x \<Rightarrow> Some x) of
                   None \<Rightarrow> True | Some secs \<Rightarrow> t < t0 + secs * 1000)"
  shows "cache_get c key t s1 = Inr v"
proof (cases "case ttl of None \<Rightarrow> c_defaultTTL c | Some x \<Rightarrow> Some x")
  case None
  with st have "s1 = s(cache_key c key \<mapsto> \<lparr>val = RStr (c_serialize c v), expireAt = None\<rparr>)"
    by (auto simp: cache_set_def redis_set_def Let_def)
  then show ?thesis using rt by (simp add: cache_get_def redis_get_def live_def)
next
  case (Some secs)
  with st have "s1 = s(cache_key c key \<mapsto> \<lparr>val = RStr (c_serialize c v), expireAt = Some (t0 + secs * 1000)\<rparr>)"
    by (auto simp: cache_set_def redis_set_ex_def store_error_def Let_def split: if_splits)
  then show ?thesis using rt fresh Some by (simp add: cache_get_def redis_get_def live_def)
qed

text \<open>
  Claim C10, as the code has it. The default serializer pair is the identity on every
  value (here: \<^verbatim>\<open>null\<close>, booleans, integers). For any serializer pair that gives a value
  \<open>v\<close> back, \<open>get\<close> after \<open>set\<close> of \<open>v\<close> (before the entry's expiry, if it has one) returns
  \<open>v\<close>; the answer differs from that of a missing key exactly when \<open>v\<close> is not \<^verbatim>\<open>null\<close>.
\<close>

theorem cache_get_after_set:
  "(\<forall>v. c_deserialize default_cache (c_serialize default_cache v) = Inr v) \<and>
   (\<forall>(c :: 'v Cache) key v ttl t0 t s s1.
      c_deserialize c (c_serialize c v) = Inr v \<and>
      cache_set c key v ttl t0 s = Inr s1 \<and>
      (case (case ttl of None \<Rightarrow> c_defaultTTL c | Some x \<Rightarrow> Some x) of
         None \<Rightarrow> True | Some secs \<Rightarrow> t < t0 + secs * 1000) \<longrightarrow>
      cache_get c key t s1 = Inr v \<and>
      (cache_get c key t s1 \<noteq> cache_get c key t (s1(cache_key c key := None))) = (v \<noteq> None))"
proof (intro conjI allI impI)
  fix v show "c_deserialize default_cache (c_serialize default_cache v) = Inr v"
    by (simp add: default_cache_def JSON_roundtrip)
next
  fix c :: "'v Cache" and key v ttl t0 t s s1
  assume a: "c_deserialize c (c_serialize c v) = Inr v \<and>
      cache_set c key v ttl t0 s = Inr s1 \<and>
      (case (case ttl of None \<Rightarrow> c_defaultTTL c | Some x \<Rightarrow> Some x) of
         None \<Rightarrow> True | Some secs \<Rightarrow> t < t0 + secs * 1000)"
  then show g: "cache_get c key t s1 = Inr v"
    using cache_get_set [of c v key ttl t0 s s1 t] by blast
  show "(cache_get c key t s1 \<noteq> cache_get c key t (s1(cache_key c key := None))) = (v \<noteq> None)"
    unfolding g cache_get_absent by auto
qed

theorem cache_get_after_set_witness:
  "c_deserialize default_cache (c_serialize default_cache (Some (JNum 42))) = Inr (Some (JNum 42)) \<and>
   cache_set default_cache ''user:1'' (Some (JNum 42)) (Some 300) 1000 empty_store =
     Inr (empty_store(''cache:user:1'' \<mapsto> \<lparr>val = RStr ''42'', expireAt = Some 301000\<rparr>)) \<and>
   cache_get default_cache ''user:1'' 2000
     (empty_store(''cache:user:1'' \<mapsto> \<lparr>val = RStr ''42'', expireAt = Some 301000\<rparr>)) = Inr (Some (JNum 42)) \<and>
   cache_get default_cache ''user:1'' 2000 empty_store = Inr None"
proof -
  let ?s1 = "empty_store(''cache:user:1'' \<mapsto> \<lparr>val = RStr ''42'', expireAt = Some 301000\<rparr>)"
  have rt: "c_deserialize default_cache (c_serialize default_cache (Some (JNum 42))) = Inr (Some (JNum 42))"
    using cache_get_after_set [THEN conjunct1] by blast
  have st: "cache_set default_cache ''user:1'' (Some (JNum 42)) (Some 300) 1000 empty_store = Inr ?s1"
    by (simp add: cache_set_def default_cache_def redis_set_ex_def store_error_def cache_key_def
        prefixKey_def JSON_stringify_def show_int_def show_nat.simps digit_char_def Let_def)
  have fr: "(case (case Some 300 of None \<Rightarrow> c_defaultTTL default_cache | Some x \<Rightarrow> Some x) of
         None \<Rightarrow> True | Some secs \<Rightarrow> (2000::int) < 1000 + secs * 1000)" by simp
  have g: "cache_get default_cache ''user:1'' 2000 ?s1 = Inr (Some (JNum 42))"
    using cache_get_after_set [THEN conjunct2, rule_format, of default_cache "Some (JNum 42)"
        "''user:1''" "Some 300" 1000 empty_store ?s1 2000] rt st fr by blast
  have m: "cache_get default_cache ''user:1'' 2000 empty_store = Inr None"
    by (simp add: cache_get_def redis_get_def live_def empty_store_def)
  from rt st g m show ?thesis by blast
qed

text \<open>The claim as stated fails at \<^verbatim>\<open>null\<close>: \<open>get\<close> after \<open>set(k, null)\<close> returns
  \<^verbatim>\<open>null\<close>, which is what a miss returns, and \<open>getOrSet\<close> calls its loader although the
  key is set.\<close>

theorem cache_get_after_set_counterexample:
  "cache_set default_cache ''k'' None None 0 empty_store =
     Inr (empty_store(''cache:k'' \<mapsto> \<lparr>val = RStr ''null'', expireAt = None\<rparr>)) \<and>
   cache_get default_cache ''k'' 1 (empty_store(''cache:k'' \<mapsto> \<lparr>val = RStr ''null'', expireAt = None\<rparr>))
     = Inr None \<and>
   cache_get default_cache ''k'' 1 empty_store = Inr None \<and>
   snd (snd (cache_getOrSet default_cache ''k'' (Returns (Some (JBool True))) None (1, 2)
     (empty_store(''cache:k'' \<mapsto> \<lparr>val = RStr ''null'', expireAt = None\<rparr>)))) = 1"
  by (simp add: cache_set_def cache_get_def cache_getOrSet_def default_cache_def redis_set_def
      redis_get_def live_def cache_key_def prefixKey_def JSON_stringify_def JSON_parse_def
      empty_store_def Let_def)

section \<open>getOrSetSafe: the lease holder\<close>

lemma lock_key_neq_cache_key: "lock_key c key \<noteq> cache_key c key"
  by (simp add: lock_key_def)

lemma cache_set_other:
  "cache_set c key v ttl t s = Inr s1 \<Longrightarrow> k \<noteq> cache_key c key \<Longrightarrow> s1 k = s k"
  by (auto simp: cache_set_def redis_set_def redis_set_ex_def store_error_def Let_def
      split: option.splits if_splits)

lemma gos_run_Done: "gos_run c key options lo ts (Done r) s n = (Done r, s, n)"
  by (cases ts) simp_all

lemma gos_holder_raises:
  assumes miss: "cache_get c key t1 s = Inr None"
    and free: "live s t2 (lock_key c key) = None"
    and ttl: "0 < (case opt_lockTTL options of None \<Rightarrow> 10 | Some x \<Rightarrow> x)"
  shows "getOrSetSafe c key options (Raises e) (t1 # t2 # t3 # t4 # ts) s =
           (Done (Inl (LoaderError e)), s(lock_key c key := None), 1)"
  using assms
  by (simp add: getOrSetSafe_def gos_step_def redis_set_nx_ex_def redis_del_def Let_def gos_run_Done)

lemma gos_holder_returns:
  assumes miss: "cache_get c key t1 s = Inr None"
    and free: "live s t2 (lock_key c key) = None"
    and ttl: "0 < (case opt_lockTTL options of None \<Rightarrow> 10 | Some x \<Rightarrow> x)"
  shows "\<exists>r s'. getOrSetSafe c key options (Returns v) (t1 # t2 # t3 # t4 # t5 # ts) s = (Done r, s', 1) \<and>
                s' (lock_key c key) = None \<and>
                (r = Inr v \<or> (\<exists>err. r = Inl err \<and> s' (cache_key c key) = s (cache_key c key)))"
proof (cases "cache_set c key v (opt_ttl options) t4
                (s(lock_key c key \<mapsto> \<lparr>val = RStr ''1'', expireAt = Some (t2 +
                   (case opt_lockTTL options of None \<Rightarrow> 10 | Some x \<Rightarrow> x) * 1000)\<rparr>))")
  case (Inl err)
  with assms show ?thesis
    by (simp add: getOrSetSafe_def gos_step_def redis_set_nx_ex_def redis_del_def Let_def
        lock_key_neq_cache_key [symmetric] gos_run_Done)
next
  case (Inr s1)
  with assms show ?thesis
    by (simp add: getOrSetSafe_def gos_step_def redis_set_nx_ex_def redis_del_def Let_def gos_run_Done)
qed


lemma gos_holder_raises_prefix:
  assumes miss: "cache_get c key t1 s = Inr None"
    and free: "live s t2 (lock_key c key) = None"
    and ttl: "0 < (case opt_lockTTL options of None \<Rightarrow> 10 | Some x \<Rightarrow> x)"
  shows "fst (snd (getOrSetSafe c key options (Raises e) (take n (t1 # t2 # t3 # t4 # ts)) s)) (cache_key c key)
           = s (cache_key c key)"
proof -
  have n: "n = 0 \<or> n = 1 \<or> n = 2 \<or> n = 3 \<or> (\<exists>m. n = Suc (Suc (Suc (Suc m))))"
    by presburger
  then show ?thesis
    using assms
    by (auto simp: getOrSetSafe_def gos_step_def redis_set_nx_ex_def redis_del_def Let_def gos_run_Done
        lock_key_neq_cache_key [symmetric])
qed

text \<open>
  Claim C8. A call of \<open>getOrSetSafe\<close> that misses the cache (at \<open>t1\<close>) and acquires the
  lease (the lock key is absent at \<open>t2\<close>, and \<open>lockTTL\<close> is positive):
  \<^item> when the loader raises, the call raises the loader's error after one loader call;
    before that the lease is deleted, so that the store ends as it began but for the
    absent lock key, and at no step is the cache key written;
  \<^item> when the loader returns, the call ends (with the value, or with the error of the
    \<open>set\<close>) and the lease is deleted as well.
  The two steps of the failure path do this from any store: a raising loader leads to the
  \<^verbatim>\<open>finally\<close> block without a write, and the \<^verbatim>\<open>finally\<close> block deletes the lock key and
  passes on what the \<^verbatim>\<open>try\<close> block raised or returned.
\<close>

theorem getOrSetSafe_loader_failure:
  assumes miss: "cache_get c key t1 s = Inr None"
    and free: "live s t2 (lock_key c key) = None"
    and ttl: "0 < (case opt_lockTTL options of None \<Rightarrow> 10 | Some x \<Rightarrow> x)"
  shows "getOrSetSafe c key options (Raises e) (t1 # t2 # t3 # t4 # ts) s =
           (Done (Inl (LoaderError e)), s(lock_key c key := None), 1) \<and>
         (\<forall>n. fst (snd (getOrSetSafe c key options (Raises e) (take n (t1 # t2 # t3 # t4 # ts)) s))
                 (cache_key c key) = s (cache_key c key)) \<and>
         (\<exists>r s'. getOrSetSafe c key options (Returns v) (t1 # t2 # t3 # t4 # t5 # ts) s = (Done r, s', 1) \<and>
                  s' (lock_key c key) = None) \<and>
         (\<forall>s0 t. gos_step c key options (Raises e) t Loading s0 = (Release (Inl (LoaderError e)), s0, 0)) \<and>
         (\<forall>s0 t lo r. gos_step c key options lo t (Release r) s0 = (Done r, s0(lock_key c key := None), 0))"
proof (intro conjI allI)
  show "getOrSetSafe c key options (Raises e) (t1 # t2 # t3 # t4 # ts) s =
           (Done (Inl (LoaderError e)), s(lock_key c key := None), 1)"
    by (rule gos_holder_raises [OF miss free ttl])
next
  fix n
  show "fst (snd (getOrSetSafe c key options (Raises e) (take n (t1 # t2 # t3 # t4 # ts)) s))
                 (cache_key c key) = s (cache_key c key)"
    by (rule gos_holder_raises_prefix [OF miss free ttl])
next
  from gos_holder_returns [OF miss free ttl, of v t3 t4 t5 ts]
  show "\<exists>r s'. getOrSetSafe c key options (Returns v) (t1 # t2 # t3 # t4 # t5 # ts) s = (Done r, s', 1) \<and>
                  s' (lock_key c key) = None"
    by blast
next
  fix s0 t
  show "gos_step c key options (Raises e) t Loading s0 = (Release (Inl (LoaderError e)), s0, 0)"
    by (simp add: gos_step_def Let_def)
next
  fix s0 t lo r
  show "gos_step c key options lo t (Release r) s0 = (Done r, s0(lock_key c key := None), 0)"
    by (simp add: gos_step_def redis_del_def Let_def)
qed

theorem getOrSetSafe_loader_failure_witness:
  "cache_get default_cache ''user:1'' 1000 empty_store = Inr None \<and>
   live empty_store 1001 (lock_key default_cache ''user:1'') = None \<and>
   getOrSetSafe default_cache ''user:1''
       \<lparr>opt_ttl = None, opt_lockTTL = None, opt_waitTimeout = None, opt_retryInterval = None\<rparr>
       (Raises ''db down'') [1000, 1001, 1100, 1101] empty_store =
     (Done (Inl (LoaderError ''db down'')), empty_store, 1)"
proof -
  let ?o = "\<lparr>opt_ttl = None, opt_lockTTL = None, opt_waitTimeout = None, opt_retryInterval = None\<rparr>"
  have miss: "cache_get default_cache ''user:1'' 1000 empty_store = Inr None"
    by (simp add: cache_get_def redis_get_def live_def empty_store_def)
  have free: "live empty_store 1001 (lock_key default_cache ''user:1'') = None"
    by (simp add: live_def empty_store_def)
  have ttl: "0 < (case opt_lockTTL ?o of None \<Rightarrow> 10 | Some x \<Rightarrow> x)" by simp
  have e: "empty_store(lock_key default_cache ''user:1'' := None) = empty_store"
    by (simp add: empty_store_def fun_eq_iff)
  from getOrSetSafe_loader_failure [OF miss free ttl, of "''db down''" 1100 1101 "[]", THEN conjunct1]
  have "getOrSetSafe default_cache ''user:1'' ?o (Raises ''db down'') [1000, 1001, 1100, 1101] empty_store =
     (Done (Inl (LoaderError ''db down'')), empty_store, 1)"
    by (simp add: e)
  with miss free show ?thesis by blast
qed

section \<open>Key isolation\<close>

subsection \<open>Each command writes one key\<close>

lemma redis_incr_frame: "redis_incr s t k = Inr (n, s') \<Longrightarrow> k' \<noteq> k \<Longrightarrow> s' k' = s k'"
  by (auto simp: redis_incr_def split: option.splits rvalue.splits)

lemma redis_expire_frame: "k' \<noteq> k \<Longrightarrow> redis_expire s t k secs k' = s k'"
  by (auto simp: redis_expire_def split: option.splits)

lemma redis_del_frame: "k' \<noteq> k \<Longrightarrow> snd (redis_del s t k) k' = s k'"
  by (simp add: redis_del_def)

lemma redis_zremrangebyscore_frame:
  "redis_zremrangebyscore s t k hi = Inr (n, s') \<Longrightarrow> k' \<noteq> k \<Longrightarrow> s' k' = s k'"
  by (auto simp: redis_zremrangebyscore_def Let_def split: option.splits rvalue.splits if_splits)

lemma redis_zadd_frame: "redis_zadd s t k sc m = Inr s' \<Longrightarrow> k' \<noteq> k \<Longrightarrow> s' k' = s k'"
  by (auto simp: redis_zadd_def split: option.splits rvalue.splits)

lemma redis_hset_frame: "redis_hset s t k f v = Inr s' \<Longrightarrow> k' \<noteq> k \<Longrightarrow> s' k' = s k'"
  by (auto simp: redis_hset_def split: option.splits rvalue.splits)

lemma redis_set_nx_ex_frame:
  "redis_set_nx_ex s t k v secs = Inr (b, s') \<Longrightarrow> k' \<noteq> k \<Longrightarrow> s' k' = s k'"
  by (auto simp: redis_set_nx_ex_def split: option.splits if_splits)

subsection \<open>Each strategy writes the keys of its own caller key\<close>

lemma fw_limit_frame:
  "fw_limit L W key c s = Inr (r, s') \<Longrightarrow> k \<noteq> windowKey key W (fst c) \<Longrightarrow> s' k = s k"
  by (auto simp: fw_limit_def Let_def redis_expire_frame split: prod.splits sum.splits if_splits
      dest: redis_incr_frame)

lemma fw_reset_frame: "k \<noteq> windowKey key W t \<Longrightarrow> fw_reset W key t s k = s k"
  by (simp add: fw_reset_def redis_del_frame)

lemma sliding_window_script_frame:
  assumes run: "sliding_window_script s t key a1 a2 a3 a4 a5 = Inr (r, s')" and k: "k \<noteq> key"
  shows "s' k = s k"
proof -
  from run obtain n s1 where z: "redis_zremrangebyscore s t key a1 = Inr (n, s1)"
    by (auto simp: sliding_window_script_def split: sum.splits)
  have 1: "s1 k = s k" by (rule redis_zremrangebyscore_frame [OF z k])
  from run z obtain s3 where e: "s' = redis_expire s3 t key a5"
    and s3: "s3 = s1 \<or> redis_zadd s1 t key a2 a4 = Inr s3"
    by (auto simp: sliding_window_script_def split: sum.splits if_splits)
  from s3 have 2: "s3 k = s1 k" using redis_zadd_frame [OF _ k] by auto
  show ?thesis unfolding e using 1 2 k by (simp add: redis_expire_frame)
qed

lemma sw_limit_frame: "sw_limit L W key ob s = Inr (r, s') \<Longrightarrow> k \<noteq> key \<Longrightarrow> s' k = s k"
  by (auto simp: sw_limit_def Let_def split: prod.splits sum.splits dest: sliding_window_script_frame)

lemma sw_peek_frame: "k \<noteq> key \<Longrightarrow> snd (sw_peek L W key t s) k = s k"
  by (auto simp: sw_peek_def Let_def split: sum.splits dest: redis_zremrangebyscore_frame)

lemma tb_run_frame:
  assumes run: "tb_run C r key t c s = Inr (res, s')" and k: "k \<noteq> key"
  shows "s' k = s k"
proof -
  from run obtain tok3 lr s1 s2 ttl where h1: "redis_hset s t key ''tokens'' tok3 = Inr s1"
    and h2: "redis_hset s1 t key ''last_refill'' lr = Inr s2"
    and e: "s' = redis_expire s2 t key ttl"
    by (auto simp: tb_run_def token_bucket_script_def Let_def
        split: sum.splits prod.splits option.splits if_splits)
  from redis_hset_frame [OF h1 k] redis_hset_frame [OF h2 k] k show ?thesis
    unfolding e by (simp add: redis_expire_frame)
qed


subsection \<open>Different caller keys give different store keys\<close>

lemma colon_not_digit: "\<not> is_digit (CHR '':'')"
  by (simp add: is_digit_def)

lemma show_nat_no_colon: "CHR '':'' \<notin> set (show_nat n)"
  using show_nat_digits [of n] colon_not_digit by blast

lemma show_int_no_colon: "CHR '':'' \<notin> set (show_int n)"
  using show_nat_no_colon by (simp add: show_int_def)

lemma prefixKey_inj: "(prefixKey p a = prefixKey p b) = (a = b)"
  by (simp add: prefixKey_def)

lemma split_at_first:
  assumes "c \<notin> set u" "c \<notin> set v" "u @ c # x = v @ c # y"
  shows "u = v \<and> x = y"
  using assms
proof (induction u arbitrary: v)
  case Nil
  then show ?case by (cases v) auto
next
  case (Cons a u)
  then show ?case by (cases v) auto
qed

lemma window_suffix_inj:
  assumes "x @ '':'' @ show_int a = y @ '':'' @ show_int b"
  shows "x = y"
proof -
  from assms have "rev (x @ CHR '':'' # show_int a) = rev (y @ CHR '':'' # show_int b)" by simp
  then have "rev (show_int a) @ CHR '':'' # rev x = rev (show_int b) @ CHR '':'' # rev y" by simp
  then have eq: "rev (show_int a) @ CHR '':'' # rev x = rev (show_int b) @ CHR '':'' # rev y" .
  have na: "CHR '':'' \<notin> set (rev (show_int a))" and nb: "CHR '':'' \<notin> set (rev (show_int b))"
    using show_int_no_colon by simp_all
  from split_at_first [OF na nb eq] have "rev x = rev y" by (rule conjunct2)
  then show ?thesis by simp
qed

lemma windowKey_neq:
  assumes "a \<noteq> b"
  shows "windowKey (prefixKey p a) W t \<noteq> prefixKey p b @ '':'' @ show_int ws"
proof
  assume "windowKey (prefixKey p a) W t = prefixKey p b @ '':'' @ show_int ws"
  then have "prefixKey p a = prefixKey p b"
    unfolding windowKey_def by (rule window_suffix_inj)
  with assms show False by (simp add: prefixKey_inj)
qed

lemma drop_prefix_Some: "drop_prefix p k = Some rest \<Longrightarrow> k = p @ rest"
  by (auto simp: drop_prefix_def split: if_splits) (metis append_take_drop_id)

lemma redis_int_Some: "redis_int raw = Some n \<Longrightarrow> raw = show_int n"
  by (auto simp: redis_int_def split: option.splits if_splits)

lemma rl_addressed_fixed:
  assumes "rl_addressed rl b k" and "strategy rl = Some (FixedWindow L W)"
  shows "\<exists>ws. k = prefixKey (prefix rl) b @ '':'' @ show_int ws"
proof -
  from assms obtain rest n where "drop_prefix (prefixKey (prefix rl) b @ '':'') k = Some rest"
    and "redis_int rest = Some n"
    by (auto simp: rl_addressed_def split: option.splits)
  then have "k = (prefixKey (prefix rl) b @ '':'') @ show_int n"
    using drop_prefix_Some redis_int_Some by blast
  then show ?thesis by auto
qed

lemma rl_addressed_other:
  assumes "rl_addressed rl b k" and "strategy rl = Some st" and "\<forall>L W. st \<noteq> FixedWindow L W"
  shows "k = prefixKey (prefix rl) b"
  using assms by (cases st) (auto simp: rl_addressed_def)

subsection \<open>The rate limiter\<close>

lemma store_error_Inr: "store_error x = Inr y \<Longrightarrow> x = Inr y"
  by (auto simp: store_error_def split: sum.splits)

lemma rl_limit_cases:
  assumes "rl_limit rl a ob s = Inr (r, s')"
  shows "(\<exists>L W. strategy rl = Some (FixedWindow L W) \<and>
            fw_limit L W (prefixKey (prefix rl) a) (ob_now ob, ob_now2 ob) s = Inr (r, s')) \<or>
         (\<exists>L W. strategy rl = Some (SlidingWindow L W) \<and>
            sw_limit L W (prefixKey (prefix rl) a) (ob_now ob, ob_rnd ob) s = Inr (r, s')) \<or>
         (\<exists>C rr. strategy rl = Some (TokenBucket C rr) \<and>
            tb_run C rr (prefixKey (prefix rl) a) (ob_now ob) True s = Inr (r, s'))"
proof (cases "strategy rl")
  case None
  with assms show ?thesis by (simp add: rl_limit_def)
next
  case (Some st)
  with assms show ?thesis
    by (cases st) (simp_all add: rl_limit_def tb_limit_def store_error_def split: sum.splits)
qed

lemma rl_peek_cases:
  assumes "rl_peek rl a ob s = Inr (r, s')"
  shows "(\<exists>L W. strategy rl = Some (FixedWindow L W) \<and> s' = s) \<or>
         (\<exists>L W. strategy rl = Some (SlidingWindow L W) \<and>
            s' = snd (sw_peek L W (prefixKey (prefix rl) a) (ob_now ob) s)) \<or>
         (\<exists>C rr. strategy rl = Some (TokenBucket C rr) \<and>
            tb_run C rr (prefixKey (prefix rl) a) (ob_now ob) False s = Inr (r, s'))"
proof (cases "strategy rl")
  case None
  with assms show ?thesis by (simp add: rl_peek_def)
next
  case (Some st)
  show ?thesis
  proof (cases st)
    case (FixedWindow L W)
    with assms Some
    have "fw_peek L W (prefixKey (prefix rl) a) (ob_now ob, ob_now2 ob) s = Inr (r, s')"
      by (simp add: rl_peek_def store_error_def split: sum.splits)
    from fw_peek_store [OF this] Some FixedWindow show ?thesis by simp
  next
    case (SlidingWindow L W)
    with assms Some show ?thesis by (auto simp: rl_peek_def)
  next
    case (TokenBucket C rr)
    with assms Some show ?thesis
      by (simp add: rl_peek_def tb_peek_def store_error_def split: sum.splits)
  qed
qed

lemma rl_reset_cases:
  assumes "rl_reset rl a ob s = Inr s'"
  shows "(\<exists>L W. strategy rl = Some (FixedWindow L W) \<and>
            s' = fw_reset W (prefixKey (prefix rl) a) (ob_now ob) s) \<or>
         (\<exists>st. strategy rl = Some st \<and> (\<forall>L W. st \<noteq> FixedWindow L W) \<and>
            s' = snd (redis_del s (ob_now ob) (prefixKey (prefix rl) a)))"
proof (cases "strategy rl")
  case None
  with assms show ?thesis by (simp add: rl_reset_def)
next
  case (Some st)
  with assms show ?thesis
    by (cases st) (simp_all add: rl_reset_def sw_reset_def tb_reset_def)
qed


lemma rl_frame:
  assumes ab: "a \<noteq> b" and k: "rl_addressed rl b k"
  shows "rl_limit rl a ob s = Inr (r, s') \<Longrightarrow> s' k = s k"
    and "rl_peek rl a ob s = Inr (r, s') \<Longrightarrow> s' k = s k"
    and "rl_reset rl a ob s = Inr s' \<Longrightarrow> s' k = s k"
proof -
  have neq: "k \<noteq> prefixKey (prefix rl) a" if "strategy rl = Some st" "\<forall>L W. st \<noteq> FixedWindow L W" for st
    using rl_addressed_other [OF k that] ab by (simp add: prefixKey_inj)
  have wneq: "k \<noteq> windowKey (prefixKey (prefix rl) a) W t" if "strategy rl = Some (FixedWindow L W)" for L W t
  proof -
    from rl_addressed_fixed [OF k that] obtain ws
      where "k = prefixKey (prefix rl) b @ '':'' @ show_int ws" by blast
    with windowKey_neq [OF ab, of "prefix rl" W t ws] show ?thesis by simp
  qed
  {
    assume "rl_limit rl a ob s = Inr (r, s')"
    from rl_limit_cases [OF this] show "s' k = s k"
    proof (elim disjE exE conjE)
      fix L W assume st: "strategy rl = Some (FixedWindow L W)"
        and run: "fw_limit L W (prefixKey (prefix rl) a) (ob_now ob, ob_now2 ob) s = Inr (r, s')"
      from fw_limit_frame [OF run] wneq [OF st] show ?thesis by simp
    next
      fix L W assume st: "strategy rl = Some (SlidingWindow L W)"
        and run: "sw_limit L W (prefixKey (prefix rl) a) (ob_now ob, ob_rnd ob) s = Inr (r, s')"
      from sw_limit_frame [OF run] neq [OF st] show ?thesis by simp
    next
      fix C rr assume st: "strategy rl = Some (TokenBucket C rr)"
        and run: "tb_run C rr (prefixKey (prefix rl) a) (ob_now ob) True s = Inr (r, s')"
      from tb_run_frame [OF run] neq [OF st] show ?thesis by simp
    qed
  }
  {
    assume "rl_peek rl a ob s = Inr (r, s')"
    from rl_peek_cases [OF this] show "s' k = s k"
    proof (elim disjE exE conjE)
      fix L W assume "s' = s"
      then show ?thesis by simp
    next
      fix L W assume st: "strategy rl = Some (SlidingWindow L W)"
        and s': "s' = snd (sw_peek L W (prefixKey (prefix rl) a) (ob_now ob) s)"
      from neq [OF st] show ?thesis unfolding s' by (simp add: sw_peek_frame)
    next
      fix C rr assume st: "strategy rl = Some (TokenBucket C rr)"
        and run: "tb_run C rr (prefixKey (prefix rl) a) (ob_now ob) False s = Inr (r, s')"
      from tb_run_frame [OF run] neq [OF st] show ?thesis by simp
    qed
  }
  {
    assume "rl_reset rl a ob s = Inr s'"
    from rl_reset_cases [OF this] show "s' k = s k"
    proof (elim disjE exE conjE)
      fix L W assume st: "strategy rl = Some (FixedWindow L W)"
        and s': "s' = fw_reset W (prefixKey (prefix rl) a) (ob_now ob) s"
      from wneq [OF st] show ?thesis unfolding s' by (simp add: fw_reset_frame)
    next
      fix st assume st: "strategy rl = Some st" "\<forall>L W. st \<noteq> FixedWindow L W"
        and s': "s' = snd (redis_del s (ob_now ob) (prefixKey (prefix rl) a))"
      from neq [OF st] show ?thesis unfolding s' by (simp add: redis_del_frame)
    qed
  }
qed

subsection \<open>The cache\<close>

lemma lock_key_is_cache_key: "lock_key c b = cache_key c (b @ '':lock'')"
  by (simp add: lock_key_def cache_key_def prefixKey_def)

lemma cache_key_inj: "(cache_key c a = cache_key c b) = (a = b)"
  by (simp add: cache_key_def prefixKey_inj)

lemma cache_addressed_plain:
  assumes "a \<noteq> b" "a \<noteq> b @ '':lock''" "cache_addressed c b k"
  shows "k \<noteq> cache_key c a"
  using assms by (auto simp: cache_addressed_def lock_key_is_cache_key cache_key_inj)

lemma cache_addressed_lock:
  assumes "a \<noteq> b" "b \<noteq> a @ '':lock''" "cache_addressed c b k"
  shows "k \<noteq> lock_key c a"
  using assms by (auto simp: cache_addressed_def lock_key_is_cache_key cache_key_inj)

lemma cache_delete_frame: "k \<noteq> cache_key c a \<Longrightarrow> snd (cache_delete c a t s) k = s k"
  by (simp add: cache_delete_def redis_del_def)

lemma cache_getOrSet_frame:
  "k \<noteq> cache_key c a \<Longrightarrow> fst (snd (cache_getOrSet c a lo ttl clock s)) k = s k"
  by (auto simp: cache_getOrSet_def split: prod.splits sum.splits option.splits loaded.splits
      dest: cache_set_other)

lemma gos_step_frame:
  assumes "k \<noteq> cache_key c a" "k \<noteq> lock_key c a"
  shows "fst (snd (gos_step c a options lo t p s)) k = s k"
proof (cases p)
  case TryLock
  with assms show ?thesis
    by (auto simp: gos_step_def Let_def split: sum.splits prod.splits dest: redis_set_nx_ex_frame)
next
  case (HolderSet v)
  with assms show ?thesis
    by (auto simp: gos_step_def Let_def split: sum.splits dest: cache_set_other)
next
  case (FallbackSet v)
  with assms show ?thesis
    by (auto simp: gos_step_def Let_def split: sum.splits dest: cache_set_other)
next
  case (Release r)
  with assms show ?thesis by (simp add: gos_step_def Let_def redis_del_def)
qed (simp_all add: gos_step_def Let_def split: sum.splits option.splits loaded.splits)

lemma gos_run_frame:
  assumes "k \<noteq> cache_key c a" "k \<noteq> lock_key c a"
  shows "fst (snd (gos_run c a options lo ts p s n)) k = s k"
proof (induction ts arbitrary: p s n)
  case Nil
  then show ?case by simp
next
  case (Cons t ts)
  show ?case
  proof (cases "\<exists>r. p = Done r")
    case True
    then show ?thesis by auto
  next
    case False
    obtain p1 s1 j where st: "gos_step c a options lo t p s = (p1, s1, j)"
      by (cases "gos_step c a options lo t p s") auto
    from False st have "gos_run c a options lo (t # ts) p s n = gos_run c a options lo ts p1 s1 (n + j)"
      by (cases p) simp_all
    moreover have "s1 k = s k" using gos_step_frame [OF assms, of options lo t p s] st by simp
    ultimately show ?thesis using Cons [of p1 s1 "n + j"] by simp
  qed
qed

lemma cache_setMany_frame:
  assumes "\<forall>e \<in> set es. k \<noteq> cache_key c (fst e)"
  shows "cache_setMany c es t s k = s k"
  using assms
proof (induction es arbitrary: s)
  case Nil
  then show ?case by simp
next
  case (Cons e es)
  obtain a v ttl where e: "e = (a, v, ttl)" by (cases e)
  from Cons.prems e have ka: "k \<noteq> cache_key c a" and rest: "\<forall>e \<in> set es. k \<noteq> cache_key c (fst e)"
    by auto
  show ?case
  proof (cases "cache_set c a v ttl t s")
    case (Inl err)
    with e Cons.IH [OF rest] show ?thesis by simp
  next
    case (Inr s1)
    with e Cons.IH [OF rest, of s1] cache_set_other [OF Inr ka] show ?thesis by simp
  qed
qed

lemma redis_del_many_frame:
  assumes "k \<notin> set ks"
  shows "snd (redis_del_many s t ks) k = s k"
  using assms
proof (induction ks arbitrary: s)
  case Nil
  then show ?case by simp
next
  case (Cons a ks)
  then have ka: "k \<noteq> a" and rest: "k \<notin> set ks" by auto
  have e1: "snd (redis_del_many s t (a # ks)) = snd (redis_del_many (s(a := None)) t ks)"
    by (simp add: redis_del_def split: prod.splits)
  have e2: "snd (redis_del_many (s(a := None)) t ks) k = (s(a := None)) k"
    by (rule Cons.IH [OF rest])
  have e3: "(s(a := None)) k = s k" using ka by simp
  show ?case by (simp only: e1 e2 e3)
qed


subsection \<open>Key isolation\<close>

text \<open>
  Claim C5, as the code has it. Two caller keys \<open>a \<noteq> b\<close>, and a store key \<open>k\<close>
  addressed under \<open>b\<close>.
  \<^item> Rate limiter (any strategy): \<open>limit\<close>, \<open>peek\<close> and \<open>reset\<close> on \<open>a\<close> leave \<open>k\<close>
    unchanged.
  \<^item> Cache: \<open>k\<close> is the cache entry or the lock lease of \<open>b\<close>. When \<open>a\<close> is not
    \<open>b\<close> followed by \<open>:lock\<close>, \<open>set\<close>, \<open>delete\<close>, \<open>getOrSet\<close>, \<open>setMany\<close> and \<open>deleteMany\<close> on
    \<open>a\<close> leave \<open>k\<close> unchanged; when moreover \<open>b\<close> is not \<open>a\<close> followed by \<open>:lock\<close>, so does
    every step of \<open>getOrSetSafe\<close> on \<open>a\<close>. (\<open>get\<close>, \<open>has\<close> and \<open>getMany\<close> only read.)
\<close>

theorem key_isolation:
  "(\<forall>rl a b k ob s r s'. a \<noteq> b \<and> rl_addressed rl b k \<longrightarrow>
      (rl_limit rl a ob s = Inr (r, s') \<longrightarrow> s' k = s k) \<and>
      (rl_peek rl a ob s = Inr (r, s') \<longrightarrow> s' k = s k) \<and>
      (rl_reset rl a ob s = Inr s' \<longrightarrow> s' k = s k)) \<and>
   (\<forall>(c :: 'v Cache) a b k. a \<noteq> b \<and> a \<noteq> b @ '':lock'' \<and> cache_addressed c b k \<longrightarrow>
      (\<forall>v ttl t s s'. cache_set c a v ttl t s = Inr s' \<longrightarrow> s' k = s k) \<and>
      (\<forall>t s. snd (cache_delete c a t s) k = s k) \<and>
      (\<forall>lo ttl clock s. fst (snd (cache_getOrSet c a lo ttl clock s)) k = s k) \<and>
      (b \<noteq> a @ '':lock'' \<longrightarrow>
         (\<forall>options lo t p s. fst (snd (gos_step c a options lo t p s)) k = s k) \<and>
         (\<forall>options lo ts s. fst (snd (getOrSetSafe c a options lo ts s)) k = s k))) \<and>
   (\<forall>(c :: 'v Cache) keys b k t s.
      b \<notin> set keys \<and> (\<forall>a \<in> set keys. a \<noteq> b @ '':lock'') \<and> cache_addressed c b k \<longrightarrow>
      snd (cache_deleteMany c keys t s) k = s k) \<and>
   (\<forall>(c :: 'v Cache) es b k t s.
      (\<forall>e \<in> set es. fst e \<noteq> b \<and> fst e \<noteq> b @ '':lock'') \<and> cache_addressed c b k \<longrightarrow>
      cache_setMany c es t s k = s k)"
proof (intro conjI allI impI)
  fix rl a b k ob s r s'
  assume h: "a \<noteq> b \<and> rl_addressed rl b k"
  then have ab: "a \<noteq> b" and k: "rl_addressed rl b k" by auto
  { assume "rl_limit rl a ob s = Inr (r, s')"
    then show "s' k = s k" by (rule rl_frame(1) [OF ab k]) }
  { assume "rl_peek rl a ob s = Inr (r, s')"
    then show "s' k = s k" by (rule rl_frame(2) [OF ab k]) }
  { assume "rl_reset rl a ob s = Inr s'"
    then show "s' k = s k" by (rule rl_frame(3) [OF ab k]) }
next
  fix c :: "'v Cache" and a b k
  assume h: "a \<noteq> b \<and> a \<noteq> b @ '':lock'' \<and> cache_addressed c b k"
  then have ka: "k \<noteq> cache_key c a" using cache_addressed_plain by blast
  { fix v ttl t s s' assume "cache_set c a v ttl t s = Inr s'"
    then show "s' k = s k" using ka by (rule cache_set_other) }
  { fix t s show "snd (cache_delete c a t s) k = s k" by (rule cache_delete_frame [OF ka]) }
  { fix lo ttl clock s
    show "fst (snd (cache_getOrSet c a lo ttl clock s)) k = s k"
      by (rule cache_getOrSet_frame [OF ka]) }
  { assume "b \<noteq> a @ '':lock''"
    with h have kl: "k \<noteq> lock_key c a" using cache_addressed_lock by blast
    { fix options lo t p s
      show "fst (snd (gos_step c a options lo t p s)) k = s k"
        by (rule gos_step_frame [OF ka kl]) }
    { fix options lo ts s
      show "fst (snd (getOrSetSafe c a options lo ts s)) k = s k"
        unfolding getOrSetSafe_def by (rule gos_run_frame [OF ka kl]) } }
next
  fix c :: "'v Cache" and keys b k t s
  assume h: "b \<notin> set keys \<and> (\<forall>a \<in> set keys. a \<noteq> b @ '':lock'') \<and> cache_addressed c b k"
  then have "\<forall>a \<in> set keys. k \<noteq> cache_key c a"
    using cache_addressed_plain by (metis (no_types))
  then have "k \<notin> set (map (cache_key c) keys)" by auto
  then show "snd (cache_deleteMany c keys t s) k = s k"
    unfolding cache_deleteMany_def by (rule redis_del_many_frame)
next
  fix c :: "'v Cache" and es :: "(string \<times> 'v option \<times> int option) list" and b k t s
  assume h: "(\<forall>e \<in> set es. fst e \<noteq> b \<and> fst e \<noteq> b @ '':lock'') \<and> cache_addressed c b k"
  then have "\<forall>e \<in> set es. k \<noteq> cache_key c (fst e)"
    using cache_addressed_plain by (metis (no_types))
  then show "cache_setMany c es t s k = s k" by (rule cache_setMany_frame)
qed

theorem key_isolation_witness:
  "''u:a'' \<noteq> ''u:b'' \<and>
   rl_addressed \<lparr>strategy = Some (FixedWindow 1 60), prefix = ''rl''\<rparr> ''u:b'' ''rl:u:b:1708617600'' \<and>
   (\<exists>r s'. rl_limit \<lparr>strategy = Some (FixedWindow 1 60), prefix = ''rl''\<rparr> ''u:a''
               \<lparr>ob_now = 1708617624000, ob_now2 = 1708617624001, ob_rnd = []\<rparr> empty_store = Inr (r, s') \<and>
            s' ''rl:u:b:1708617600'' = empty_store ''rl:u:b:1708617600'' \<and>
            s' ''rl:u:a:1708617600'' \<noteq> empty_store ''rl:u:a:1708617600'') \<and>
   cache_addressed default_cache ''u:b'' ''cache:u:b:lock'' \<and>
   fst (snd (getOrSetSafe default_cache ''u:a''
      \<lparr>opt_ttl = None, opt_lockTTL = None, opt_waitTimeout = None, opt_retryInterval = None\<rparr>
      (Returns (Some (JNum 7))) [0, 1, 2] empty_store)) ''cache:u:b:lock'' = empty_store ''cache:u:b:lock''"
proof -
  let ?rl = "\<lparr>strategy = Some (FixedWindow 1 60), prefix = ''rl''\<rparr>"
  let ?ob = "\<lparr>ob_now = 1708617624000, ob_now2 = 1708617624001, ob_rnd = []\<rparr>"
  let ?o = "\<lparr>opt_ttl = None, opt_lockTTL = None, opt_waitTimeout = None, opt_retryInterval = None\<rparr>"
  have ab: "''u:a'' \<noteq> ''u:b''" by simp
  have sh: "show_int 1708617600 = ''1708617600''"
    by (simp add: show_int_def show_nat.simps digit_char_def)
  have ri: "redis_int ''1708617600'' = Some 1708617600"
    using redis_int_show_int [of 1708617600] by (simp only: sh)
  have k: "rl_addressed ?rl ''u:b'' ''rl:u:b:1708617600''"
    by (simp add: rl_addressed_def drop_prefix_def prefixKey_def ri)
  have run: "\<exists>r s'. rl_limit ?rl ''u:a'' ?ob empty_store = Inr (r, s') \<and>
               s' ''rl:u:a:1708617600'' \<noteq> empty_store ''rl:u:a:1708617600''"
    by (simp add: rl_limit_def fw_limit_def store_error_def redis_incr_def redis_expire_def live_def
        windowKey_def windowStart_def prefixKey_def empty_store_def sh Let_def)
  then obtain r s' where r: "rl_limit ?rl ''u:a'' ?ob empty_store = Inr (r, s')"
    and w: "s' ''rl:u:a:1708617600'' \<noteq> empty_store ''rl:u:a:1708617600''" by blast
  have "s' ''rl:u:b:1708617600'' = empty_store ''rl:u:b:1708617600''"
    using key_isolation [THEN conjunct1, rule_format, of "''u:a''" "''u:b''" ?rl "''rl:u:b:1708617600''",
        THEN conjunct1, rule_format, OF _ r] ab k by blast
  with r w have a: "\<exists>r s'. rl_limit ?rl ''u:a'' ?ob empty_store = Inr (r, s') \<and>
            s' ''rl:u:b:1708617600'' = empty_store ''rl:u:b:1708617600'' \<and>
            s' ''rl:u:a:1708617600'' \<noteq> empty_store ''rl:u:a:1708617600''" by blast
  have ck: "cache_addressed default_cache ''u:b'' ''cache:u:b:lock''"
    by (simp add: cache_addressed_def lock_key_def cache_key_def prefixKey_def default_cache_def)
  have h: "''u:a'' \<noteq> ''u:b'' \<and> ''u:a'' \<noteq> ''u:b'' @ '':lock'' \<and>
           cache_addressed default_cache ''u:b'' ''cache:u:b:lock''"
    using ck by simp
  have nb: "''u:b'' \<noteq> ''u:a'' @ '':lock''" by simp
  note c = key_isolation [THEN conjunct2, THEN conjunct1, rule_format, OF h]
  have "fst (snd (getOrSetSafe default_cache ''u:a'' ?o (Returns (Some (JNum 7))) [0, 1, 2] empty_store))
          ''cache:u:b:lock'' = empty_store ''cache:u:b:lock''"
    by (rule c [THEN conjunct2, THEN conjunct2, THEN conjunct2, rule_format, OF nb,
          THEN conjunct2, rule_format])
  with ab k a ck show ?thesis by blast
qed

text \<open>The claim as stated fails where one key is the other followed by \<open>:lock\<close>: the
  cache entry of \<open>user:lock\<close> and the lock lease of \<open>user\<close> are one store key. A \<open>set\<close>
  on \<open>user:lock\<close> creates a lease for \<open>user\<close>, and \<open>getOrSetSafe\<close> on \<open>user\<close> writes its
  lease into the cache entry of \<open>user:lock\<close>.\<close>

theorem key_isolation_counterexample:
  "lock_key default_cache ''user'' = cache_key default_cache ''user:lock'' \<and>
   empty_store (lock_key default_cache ''user'') = None \<and>
   cache_set default_cache ''user:lock'' (Some (JNum 1)) None 0 empty_store =
     Inr (empty_store(lock_key default_cache ''user'' \<mapsto> \<lparr>val = RStr ''1'', expireAt = None\<rparr>)) \<and>
   fst (snd (getOrSetSafe default_cache ''user''
      \<lparr>opt_ttl = None, opt_lockTTL = None, opt_waitTimeout = None, opt_retryInterval = None\<rparr>
      (Returns (Some (JNum 7))) [0, 1] empty_store)) (cache_key default_cache ''user:lock'') =
     Some \<lparr>val = RStr ''1'', expireAt = Some 10001\<rparr>"
  by (simp add: lock_key_def cache_key_def prefixKey_def default_cache_def empty_store_def
      cache_set_def redis_set_def JSON_stringify_def show_int_def show_nat.simps digit_char_def
      getOrSetSafe_def gos_step_def cache_get_def redis_get_def redis_set_nx_ex_def live_def Let_def)

section \<open>The lease: at most one holder\<close>

lemma gos_step_becomes_holder:
  assumes "gos_step c key options lo t p s = (p1, s1, k)" "holder p1" "\<not> holder p"
  shows "live s t (lock_key c key) = None"
  using assms
  by (cases p)
     (auto simp: gos_step_def Let_def redis_set_nx_ex_def
        split: sum.splits option.splits if_splits loaded.splits prod.splits)

lemma sys_step_pcs_length [simp]:
  "length (sys_pcs (sys_step c key options loaders ev st)) = length (sys_pcs st)"
  by (cases ev) (auto simp: sys_step_def Let_def split: prod.splits)

lemma sys_run_pcs_length [simp]:
  "length (sys_pcs (sys_run c key options loaders evs st)) = length (sys_pcs st)"
  by (induction evs arbitrary: st) simp_all

lemma sys_step_one_holder:
  assumes one: "at_most_one_holder (sys_pcs st)" and held: "lease_held c key st"
  shows "at_most_one_holder (sys_pcs (sys_step c key options loaders ev st))"
proof (cases ev)
  case (Tick d)
  with one show ?thesis by (simp add: sys_step_def)
next
  case (Run m)
  show ?thesis
  proof (cases "m < length (sys_pcs st)")
    case False
    with Run one show ?thesis by (simp add: sys_step_def)
  next
    case True
    obtain p1 s1 k where g: "gos_step c key options (loaders m) (sys_clock st) (sys_pcs st ! m) (sys_store st)
        = (p1, s1, k)"
      by (cases "gos_step c key options (loaders m) (sys_clock st) (sys_pcs st ! m) (sys_store st)") auto
    with Run True have pcs': "sys_pcs (sys_step c key options loaders ev st) = (sys_pcs st)[m := p1]"
      by (simp add: sys_step_def)
    show ?thesis
    proof (cases "holder p1 \<and> \<not> holder (sys_pcs st ! m)")
      case True
      then have "live (sys_store st) (sys_clock st) (lock_key c key) = None"
        using gos_step_becomes_holder [OF g] by blast
      with held have none: "\<forall>p \<in> set (sys_pcs st). \<not> holder p"
        by (auto simp: lease_held_def)
      show ?thesis
        unfolding pcs' at_most_one_holder_def
      proof (intro allI impI)
        fix i j
        assume i: "i < length ((sys_pcs st)[m := p1])" and j: "j < length ((sys_pcs st)[m := p1])"
          and h: "holder ((sys_pcs st)[m := p1] ! i) \<and> holder ((sys_pcs st)[m := p1] ! j)"
        have "i = m"
        proof (rule ccontr)
          assume "i \<noteq> m"
          with h i have "holder (sys_pcs st ! i)" by simp
          with none i show False using nth_mem by fastforce
        qed
        moreover have "j = m"
        proof (rule ccontr)
          assume "j \<noteq> m"
          with h j have "holder (sys_pcs st ! j)" by simp
          with none j show False using nth_mem by fastforce
        qed
        ultimately show "i = j" by simp
      qed
    next
      case False
      then have imp: "holder p1 \<Longrightarrow> holder (sys_pcs st ! m)" by blast
      show ?thesis
        unfolding pcs' at_most_one_holder_def
      proof (intro allI impI)
        fix i j
        assume i: "i < length ((sys_pcs st)[m := p1])" and j: "j < length ((sys_pcs st)[m := p1])"
          and h: "holder ((sys_pcs st)[m := p1] ! i) \<and> holder ((sys_pcs st)[m := p1] ! j)"
        from h i imp have hi: "holder (sys_pcs st ! i)" by (cases "i = m") auto
        from h j imp have hj: "holder (sys_pcs st ! j)" by (cases "j = m") auto
        from one i j hi hj show "i = j" by (auto simp: at_most_one_holder_def)
      qed
    qed
  qed
qed

lemma sys_run_one_holder:
  assumes "at_most_one_holder (sys_pcs st)" and "lease_kept c key options loaders evs st"
  shows "at_most_one_holder (sys_pcs (sys_run c key options loaders evs st))"
  using assms
proof (induction evs arbitrary: st)
  case Nil
  then show ?case by simp
next
  case (Cons ev evs)
  from Cons.prems have held: "lease_held c key st"
    and kept: "lease_kept c key options loaders evs (sys_step c key options loaders ev st)"
    by simp_all
  from sys_step_one_holder [OF Cons.prems(1) held]
  have "at_most_one_holder (sys_pcs (sys_step c key options loaders ev st))" .
  from Cons.IH [OF this kept] show ?case by simp
qed

lemma sys_init_one_holder: "at_most_one_holder (sys_pcs (sys_init s t0 n))"
  by (simp add: at_most_one_holder_def sys_init_def)

text \<open>
  Claim C6, as the code has it. \<open>n\<close> callers of \<open>getOrSetSafe\<close> on one key, under any
  schedule in which no lease expires while a caller proceeds as its holder: in every
  state the schedule reaches, at most one caller proceeds as the lease holder.
\<close>

theorem single_lease_holder:
  assumes "lease_kept c key options loaders evs (sys_init s t0 n)"
  shows "at_most_one_holder (sys_pcs (sys_run c key options loaders evs (sys_init s t0 n)))"
  using sys_init_one_holder assms by (rule sys_run_one_holder)


lemma replicate_two: "replicate 2 x = [x, x]"
  by (simp add: numeral_2_eq_2)

lemma replicate_three: "replicate 3 x = [x, x, x]"
  by (simp add: numeral_3_eq_3)

lemmas sys_eval = replicate_two replicate_three
  sys_step_def sys_init_def gos_step_def cache_get_def cache_set_def redis_get_def redis_set_def
  redis_set_ex_def redis_set_nx_ex_def redis_del_def live_def lock_key_def cache_key_def prefixKey_def
  default_cache_def no_options_def numbered_loaders_def empty_store_def store_error_def
  JSON_stringify_def JSON_parse_def Let_def

theorem single_lease_holder_witness:
  "lease_kept default_cache ''k'' no_options numbered_loaders
     [Run 0, Run 1, Run 0, Run 1, Tick 50, Run 0, Run 0, Run 0] (sys_init empty_store 0 2) \<and>
   at_most_one_holder (sys_pcs (sys_run default_cache ''k'' no_options numbered_loaders
     [Run 0, Run 1, Run 0, Run 1, Tick 50, Run 0, Run 0, Run 0] (sys_init empty_store 0 2)))"
proof -
  have k: "lease_kept default_cache ''k'' no_options numbered_loaders
     [Run 0, Run 1, Run 0, Run 1, Tick 50, Run 0, Run 0, Run 0] (sys_init empty_store 0 2)"
    by (simp add: sys_eval lease_held_def)
  from single_lease_holder [OF k] k show ?thesis by simp
qed

text \<open>The claim as stated fails when a lease expires under its holder: caller 0 acquires
  the lease and is still loading when \<open>lockTTL\<close> (10 s) has passed; caller 1 then misses
  the cache and acquires the lease too.\<close>

theorem single_lease_holder_counterexample:
  "sys_pcs (sys_run default_cache ''k'' no_options numbered_loaders
      [Run 0, Run 0, Tick 10000, Run 1, Run 1] (sys_init empty_store 0 2)) = [Loading, Loading] \<and>
   \<not> at_most_one_holder (sys_pcs (sys_run default_cache ''k'' no_options numbered_loaders
      [Run 0, Run 0, Tick 10000, Run 1, Run 1] (sys_init empty_store 0 2)))"
proof -
  have a: "sys_pcs (sys_run default_cache ''k'' no_options numbered_loaders
      [Run 0, Run 0, Tick 10000, Run 1, Run 1] (sys_init empty_store 0 2)) = [Loading, Loading]"
    by (simp add: sys_eval)
  have "\<not> at_most_one_holder [Loading, Loading :: jatom pc]"
  proof
    assume "at_most_one_holder [Loading, Loading :: jatom pc]"
    then have "\<forall>i<2. \<forall>j<2. holder ([Loading, Loading :: jatom pc] ! i) \<and>
                 holder ([Loading, Loading :: jatom pc] ! j) \<longrightarrow> i = j"
      by (simp add: at_most_one_holder_def numeral_2_eq_2)
    then have "holder ([Loading, Loading :: jatom pc] ! 0) \<and> holder ([Loading, Loading :: jatom pc] ! 1)
                \<longrightarrow> (0::nat) = 1"
      by (metis one_less_numeral_iff pos2 semiring_norm(76))
    then show False by simp
  qed
  with a show ?thesis by simp
qed

section \<open>Single flight\<close>

subsection \<open>One step of one caller\<close>

lemma elapsed_nonneg: "0 \<le> elapsed evs"
  by (induction evs rule: elapsed.induct) auto

lemma live_None_mono: "live s t k = None \<Longrightarrow> t \<le> t' \<Longrightarrow> live s t' k = None"
  by (auto simp: live_def split: option.splits if_splits)

lemma fresh_until_live: "fresh_until h s k \<Longrightarrow> t < h \<Longrightarrow> live s t k = s k \<and> s k \<noteq> None"
  by (auto simp: fresh_until_def live_def split: option.splits)

lemma step_Start_miss:
  assumes "live s now (cache_key c key) = None"
  shows "gos_step c key options lo now Start s = (TryLock, s, 0)"
  using assms by (simp add: gos_step_def cache_get_def redis_get_def Let_def)

lemma cached_get:
  assumes "cached c key h v s" "now < h" "c_deserialize c (c_serialize c (Some v)) = Inr (Some v)"
  shows "cache_get c key now s = Inr (Some v)"
proof -
  from assms(1) obtain e where e: "s (cache_key c key) = Some e" "val e = RStr (c_serialize c (Some v))"
    and f: "fresh_until h s (cache_key c key)" by (auto simp: cached_def)
  from fresh_until_live [OF f assms(2)] e have "live s now (cache_key c key) = Some e" by simp
  with e assms(3) show ?thesis by (simp add: cache_get_def redis_get_def)
qed

lemma step_Start_hit:
  assumes "cached c key h v s" "now < h" "c_deserialize c (c_serialize c (Some v)) = Inr (Some v)"
  shows "gos_step c key options lo now Start s = (Done (Inr (Some v)), s, 0)"
  using cached_get [OF assms] by (simp add: gos_step_def Let_def)

lemma step_Poll_hit:
  assumes "cached c key h v s" "now < h" "c_deserialize c (c_serialize c (Some v)) = Inr (Some v)"
  shows "gos_step c key options lo now (Poll d) s = (Done (Inr (Some v)), s, 0)"
  using cached_get [OF assms] by (simp add: gos_step_def Let_def)

lemma step_Poll_miss:
  assumes "live s now (cache_key c key) = None" "now < d"
  shows "gos_step c key options lo now (Poll d) s =
           (Sleeping d (now + (case opt_retryInterval options of None \<Rightarrow> 50 | Some x \<Rightarrow> x)), s, 0)"
  using assms by (simp add: gos_step_def cache_get_def redis_get_def Let_def)

lemma step_Sleeping:
  "gos_step c key options lo now (Sleeping d w) s = (if now < w then Sleeping d w else Poll d, s, 0)"
  by (simp add: gos_step_def Let_def)

lemma step_TryLock_free:
  assumes "live s now (lock_key c key) = None"
    and "0 < (case opt_lockTTL options of None \<Rightarrow> 10 | Some x \<Rightarrow> x)"
  shows "gos_step c key options lo now TryLock s =
           (Loading,
            s(lock_key c key \<mapsto> \<lparr>val = RStr ''1'',
               expireAt = Some (now + (case opt_lockTTL options of None \<Rightarrow> 10 | Some x \<Rightarrow> x) * 1000)\<rparr>),
            1)"
  using assms by (simp add: gos_step_def redis_set_nx_ex_def Let_def)

lemma step_TryLock_busy:
  assumes "fresh_until h s (lock_key c key)" "now < h"
    and "0 < (case opt_lockTTL options of None \<Rightarrow> 10 | Some x \<Rightarrow> x)"
    and "0 < (case opt_waitTimeout options of None \<Rightarrow> 5000 | Some x \<Rightarrow> x)"
  shows "gos_step c key options lo now TryLock s =
           (Sleeping (now + (case opt_waitTimeout options of None \<Rightarrow> 5000 | Some x \<Rightarrow> x))
                     (now + (case opt_retryInterval options of None \<Rightarrow> 50 | Some x \<Rightarrow> x)), s, 0)"
proof -
  from fresh_until_live [OF assms(1,2)] obtain e where "live s now (lock_key c key) = Some e" by auto
  with assms(3,4) show ?thesis by (simp add: gos_step_def redis_set_nx_ex_def Let_def)
qed

lemma step_Loading:
  "gos_step c key options (Returns v) now Loading s = (HolderSet v, s, 0)"
  by (simp add: gos_step_def Let_def)

lemma step_HolderSet:
  assumes "case (case opt_ttl options of None \<Rightarrow> c_defaultTTL c | Some t \<Rightarrow> Some t) of
             None \<Rightarrow> True | Some t \<Rightarrow> 0 < t"
  shows "gos_step c key options lo now (HolderSet v) s =
           (Release (Inr v),
            s(cache_key c key \<mapsto> \<lparr>val = RStr (c_serialize c v),
               expireAt = (case (case opt_ttl options of None \<Rightarrow> c_defaultTTL c | Some t \<Rightarrow> Some t) of
                             None \<Rightarrow> None | Some t \<Rightarrow> Some (now + t * 1000))\<rparr>),
            0)"
  using assms
  by (auto simp: gos_step_def cache_set_def redis_set_def redis_set_ex_def store_error_def Let_def
      split: option.splits)

lemma step_Release:
  "gos_step c key options lo now (Release r) s = (Done r, s(lock_key c key := None), 0)"
  by (simp add: gos_step_def redis_del_def Let_def)

lemma step_Done:
  "gos_step c key options lo now (Done r) s = (Done r, s, 0)"
  by (simp add: gos_step_def Let_def)

lemma live_upd_other: "k' \<noteq> k \<Longrightarrow> live (s(k' := x)) t k = live s t k"
  by (simp add: live_def)

lemma fresh_until_upd_other: "k' \<noteq> k \<Longrightarrow> fresh_until h (s(k' := x)) k = fresh_until h s k"
  by (simp add: fresh_until_def)

lemma cached_upd_lock: "cached c key h v (s(lock_key c key := x)) = cached c key h v s"
  using lock_key_neq_cache_key [of c key] by (auto simp: cached_def fresh_until_def)

lemma setting_roundtrip:
  assumes "setting c options loaders n t0 h" "i < n" "loaders i = Returns (Some v)"
  shows "c_deserialize c (c_serialize c (Some v)) = Inr (Some v)"
  using assms by (auto simp: setting_def Let_def)

lemma setting_loader:
  assumes "setting c options loaders n t0 h" "i < n"
  shows "\<exists>v. loaders i = Returns (Some v)"
  using assms by (auto simp: setting_def Let_def)

subsection \<open>The phases are kept\<close>

lemma waiting_cases:
  "waiting h p \<Longrightarrow> (\<exists>d w. p = Sleeping d w \<and> h \<le> d) \<or> (\<exists>d. p = Poll d \<and> h \<le> d)"
  by (cases p) auto

lemma setting_bounds:
  assumes "setting c options loaders n t0 h"
  shows "0 < (case opt_lockTTL options of None \<Rightarrow> 10 | Some x \<Rightarrow> x)"
    and "h \<le> t0 + (case opt_lockTTL options of None \<Rightarrow> 10 | Some x \<Rightarrow> x) * 1000"
    and "0 < (case opt_waitTimeout options of None \<Rightarrow> 5000 | Some x \<Rightarrow> x)"
    and "h \<le> t0 + (case opt_waitTimeout options of None \<Rightarrow> 5000 | Some x \<Rightarrow> x)"
    and "case (case opt_ttl options of None \<Rightarrow> c_defaultTTL c | Some t \<Rightarrow> Some t) of
           None \<Rightarrow> True | Some t \<Rightarrow> 0 < t \<and> h \<le> t0 + t * 1000"
  using assms by (simp_all add: setting_def Let_def)

lemma other_step_miss:
  assumes set: "setting c options loaders n t0 h"
    and miss: "live s now (cache_key c key) = None"
    and lock: "fresh_until h s (lock_key c key)"
    and t: "t0 \<le> now" "now < h"
    and p: "p = Start \<or> p = TryLock \<or> waiting h p"
    and g: "gos_step c key options lo now p s = (p1, s1, k)"
  shows "s1 = s \<and> k = 0 \<and> (p1 = Start \<or> p1 = TryLock \<or> waiting h p1)"
proof -
  note b = setting_bounds [OF set]
  from p consider "p = Start" | "p = TryLock" | d w where "p = Sleeping d w" "h \<le> d"
    | d where "p = Poll d" "h \<le> d"
    using waiting_cases by blast
  then show ?thesis
  proof cases
    case 1
    with g step_Start_miss [OF miss, of options lo] show ?thesis by simp
  next
    case 2
    with g step_TryLock_busy [OF lock t(2) b(1) b(3), of lo] b(4) t(1) show ?thesis by auto
  next
    case 3
    with g step_Sleeping [of c key options lo now d w s] show ?thesis by (auto split: if_splits)
  next
    case 4
    with t have "now < d" by simp
    from step_Poll_miss [OF miss this, of options lo] g 4 show ?thesis by auto
  qed
qed

lemma other_step_hit:
  assumes set: "setting c options loaders n t0 h"
    and hit: "cached c key h v s"
    and rt: "c_deserialize c (c_serialize c (Some v)) = Inr (Some v)"
    and lock: "p = TryLock \<longrightarrow> fresh_until h s (lock_key c key)"
    and t: "t0 \<le> now" "now < h"
    and p: "p = Start \<or> p = TryLock \<or> waiting h p \<or> p = Done (Inr (Some v))"
    and g: "gos_step c key options lo now p s = (p1, s1, k)"
  shows "s1 = s \<and> k = 0 \<and> (waiting h p1 \<or> p1 = Done (Inr (Some v)))"
proof -
  note b = setting_bounds [OF set]
  from p consider "p = Start" | "p = TryLock" | d w where "p = Sleeping d w" "h \<le> d"
    | d where "p = Poll d" "h \<le> d" | "p = Done (Inr (Some v))"
    using waiting_cases by blast
  then show ?thesis
  proof cases
    case 1
    with g step_Start_hit [OF hit t(2) rt, of options lo] show ?thesis by simp
  next
    case 2
    with lock have l: "fresh_until h s (lock_key c key)" by simp
    from 2 g step_TryLock_busy [OF l t(2) b(1) b(3), of lo] b(4) t(1) show ?thesis by auto
  next
    case 3
    with g step_Sleeping [of c key options lo now d w s] show ?thesis by (auto split: if_splits)
  next
    case 4
    with g step_Poll_hit [OF hit t(2) rt, of options lo d] show ?thesis by simp
  next
    case 5
    with g step_Done [of c key options lo now "Inr (Some v)" s] show ?thesis by simp
  qed
qed

lemma caller_step:
  assumes set: "setting c options loaders n t0 h"
    and so: "store_ok c key h now ph s"
    and mb: "may_be h ph m p"
    and wf: "phase_wf loaders n ph"
    and m: "m < n"
    and t: "t0 \<le> now" "now < h"
    and g: "gos_step c key options (loaders m) now p s = (p1, s1, k)"
  shows "\<exists>ph'. store_ok c key h now ph' s1 \<and> may_be h ph' m p1 \<and> phase_wf loaders n ph' \<and>
               phase_loads ph' = phase_loads ph + k \<and>
               (\<forall>j q. j \<noteq> m \<longrightarrow> may_be h ph j q \<longrightarrow> (releasing p \<longrightarrow> q \<noteq> TryLock) \<longrightarrow>
                      may_be h ph' j q)"
proof (cases ph)
  case Cold
  note b = setting_bounds [OF set]
  from so Cold have miss: "live s now (cache_key c key) = None"
    and free: "live s now (lock_key c key) = None" by simp_all
  from mb Cold consider "p = Start" | "p = TryLock" by auto
  then show ?thesis
  proof cases
    case 1
    with g step_Start_miss [OF miss, of options "loaders m"] have "p1 = TryLock" "s1 = s" "k = 0"
      by simp_all
    with so wf Cold show ?thesis by (intro exI [of _ Cold]) simp
  next
    case 2
    from setting_loader [OF set m] obtain v where v: "loaders m = Returns (Some v)" by blast
    let ?e = "\<lparr>val = RStr ''1'',
               expireAt = Some (now + (case opt_lockTTL options of None \<Rightarrow> 10 | Some x \<Rightarrow> x) * 1000)\<rparr>"
    from 2 g step_TryLock_free [OF free b(1), of "loaders m"]
    have r: "p1 = Loading" "s1 = s(lock_key c key \<mapsto> ?e)" "k = 1" by simp_all
    have a: "live s1 now (cache_key c key) = None"
      unfolding r(2) using miss lock_key_neq_cache_key [of c key] by (simp add: live_upd_other)
    have l: "fresh_until h s1 (lock_key c key)"
      unfolding r(2) using b(2) t(1) by (simp add: fresh_until_def)
    from a l r v m Cold show ?thesis by (intro exI [of _ "Held m v"]) auto
  qed
next
  case (Held i v)
  note b = setting_bounds [OF set]
  from so Held have miss: "live s now (cache_key c key) = None"
    and lock: "fresh_until h s (lock_key c key)" by simp_all
  from wf Held have i: "i < n" "loaders i = Returns (Some v)" by simp_all
  show ?thesis
  proof (cases "m = i")
    case True
    with mb Held consider "p = Loading" | "p = HolderSet (Some v)" by auto
    then show ?thesis
    proof cases
      case 1
      with g True i step_Loading [of c key options "Some v" now s]
      have "p1 = HolderSet (Some v)" "s1 = s" "k = 0" by simp_all
      with so wf Held True show ?thesis by (intro exI [of _ "Held i v"]) simp
    next
      case 2
      let ?e = "\<lparr>val = RStr (c_serialize c (Some v)),
               expireAt = (case (case opt_ttl options of None \<Rightarrow> c_defaultTTL c | Some t \<Rightarrow> Some t) of
                             None \<Rightarrow> None | Some t \<Rightarrow> Some (now + t * 1000))\<rparr>"
      have ok: "case (case opt_ttl options of None \<Rightarrow> c_defaultTTL c | Some t \<Rightarrow> Some t) of
             None \<Rightarrow> True | Some t \<Rightarrow> 0 < t"
        using b(5) by (auto split: option.splits)
      from 2 g step_HolderSet [OF ok, of key "loaders m" now "Some v" s]
      have r: "p1 = Release (Inr (Some v))" "s1 = s(cache_key c key \<mapsto> ?e)" "k = 0" by simp_all
      have a: "cached c key h v s1"
        unfolding r(2) using b(5) t(1) by (auto simp: cached_def fresh_until_def split: option.splits)
      have l: "fresh_until h s1 (lock_key c key)"
        unfolding r(2) using lock lock_key_neq_cache_key [of c key] by (simp add: fresh_until_def)
      from a l r i True Held show ?thesis by (intro exI [of _ "Written i v"]) auto
    qed
  next
    case False
    with mb Held have p: "p = Start \<or> p = TryLock \<or> waiting h p" by simp
    from other_step_miss [OF set miss lock t p g]
    have "s1 = s" "k = 0" "p1 = Start \<or> p1 = TryLock \<or> waiting h p1" by simp_all
    with so wf Held False show ?thesis by (intro exI [of _ "Held i v"]) simp
  qed
next
  case (Written i v)
  from so Written have hit: "cached c key h v s"
    and lock: "fresh_until h s (lock_key c key)" by simp_all
  from wf Written have i: "i < n" "loaders i = Returns (Some v)" by simp_all
  note rt = setting_roundtrip [OF set i]
  show ?thesis
  proof (cases "m = i")
    case True
    with mb Written have p: "p = Release (Inr (Some v))" by simp
    with g step_Release [of c key options "loaders m" now "Inr (Some v)" s]
    have r: "p1 = Done (Inr (Some v))" "s1 = s(lock_key c key := None)" "k = 0" by simp_all
    have a: "cached c key h v s1" unfolding r(2) using hit by (simp add: cached_upd_lock)
    from a r i p True Written show ?thesis by (intro exI [of _ "Released i v"]) auto
  next
    case False
    with mb Written have p: "p = Start \<or> p = TryLock \<or> waiting h p \<or> p = Done (Inr (Some v))" by simp
    from lock have l: "p = TryLock \<longrightarrow> fresh_until h s (lock_key c key)" by simp
    from other_step_hit [OF set hit rt l t p g]
    have "s1 = s" "k = 0" "waiting h p1 \<or> p1 = Done (Inr (Some v))" by simp_all
    with so wf Written False show ?thesis by (intro exI [of _ "Written i v"]) auto
  qed
next
  case (Released i v)
  from so Released have hit: "cached c key h v s" by simp
  from wf Released have i: "i < n" "loaders i = Returns (Some v)" by simp_all
  note rt = setting_roundtrip [OF set i]
  from mb Released have p: "p = Start \<or> p = TryLock \<or> waiting h p \<or> p = Done (Inr (Some v))"
    and nt: "p \<noteq> TryLock" by auto
  from nt have l: "p = TryLock \<longrightarrow> fresh_until h s (lock_key c key)" by simp
  from other_step_hit [OF set hit rt l t p g]
  have "s1 = s" "k = 0" "waiting h p1 \<or> p1 = Done (Inr (Some v))" by simp_all
  with so wf Released show ?thesis by (intro exI [of _ "Released i v"]) auto
qed

lemma store_ok_later:
  "store_ok c key h now ph s \<Longrightarrow> now \<le> now' \<Longrightarrow> store_ok c key h now' ph s"
  by (cases ph) (auto intro: live_None_mono)

lemma sys_step_clock:
  "sys_clock (sys_step c key options loaders ev st) = sys_clock st + elapsed [ev]"
  by (cases ev) (auto simp: sys_step_def Let_def split: prod.splits)

lemma elapsed_Cons: "elapsed (ev # evs) = elapsed [ev] + elapsed evs"
  by (cases ev) simp_all

lemma sf_step:
  assumes set: "setting c options loaders (length (sys_pcs st)) t0 h"
    and inv: "sf_inv c key loaders t0 h ph st"
    and time: "sys_clock st + elapsed [ev] < h"
    and tm: "timely ev st"
  shows "\<exists>ph'. sf_inv c key loaders t0 h ph' (sys_step c key options loaders ev st)"
proof (cases ev)
  case (Tick d)
  from inv have "store_ok c key h (sys_clock st) ph (sys_store st)" by (simp add: sf_inv_def)
  then have "store_ok c key h (sys_clock st + int d) ph (sys_store st)"
    by (rule store_ok_later) simp
  with inv Tick have "sf_inv c key loaders t0 h ph (sys_step c key options loaders ev st)"
    by (simp add: sf_inv_def sys_step_def)
  then show ?thesis by blast
next
  case (Run m)
  show ?thesis
  proof (cases "m < length (sys_pcs st)")
    case False
    with Run inv have "sf_inv c key loaders t0 h ph (sys_step c key options loaders ev st)"
      by (simp add: sys_step_def)
    then show ?thesis by blast
  next
    case True
    define p where "p = sys_pcs st ! m"
    obtain p1 s1 k where g: "gos_step c key options (loaders m) (sys_clock st) p (sys_store st) = (p1, s1, k)"
      by (cases "gos_step c key options (loaders m) (sys_clock st) p (sys_store st)") auto
    from g Run True have st': "sys_step c key options loaders ev st =
        st\<lparr>sys_store := s1, sys_pcs := (sys_pcs st)[m := p1], sys_loads := sys_loads st + k\<rparr>"
      by (simp add: sys_step_def p_def)
    from inv have t0: "t0 \<le> sys_clock st"
      and so: "store_ok c key h (sys_clock st) ph (sys_store st)"
      and mbs: "\<forall>j < length (sys_pcs st). may_be h ph j (sys_pcs st ! j)"
      and wf: "phase_wf loaders (length (sys_pcs st)) ph"
      and ld: "sys_loads st = phase_loads ph"
      by (simp_all add: sf_inv_def)
    from mbs True have mb: "may_be h ph m p" by (simp add: p_def)
    from time Run have now: "sys_clock st < h" by simp
    from caller_step [OF set so mb wf True t0 now g]
    obtain ph' where so': "store_ok c key h (sys_clock st) ph' s1"
      and mb': "may_be h ph' m p1"
      and wf': "phase_wf loaders (length (sys_pcs st)) ph'"
      and ld': "phase_loads ph' = phase_loads ph + k"
      and others: "\<forall>j q. j \<noteq> m \<longrightarrow> may_be h ph j q \<longrightarrow> (releasing p \<longrightarrow> q \<noteq> TryLock) \<longrightarrow>
                      may_be h ph' j q"
      by blast
    from tm Run True have nt: "releasing p \<Longrightarrow> TryLock \<notin> set (sys_pcs st)"
      by (simp add: timely_def p_def)
    have all: "\<forall>j < length ((sys_pcs st)[m := p1]). may_be h ph' j ((sys_pcs st)[m := p1] ! j)"
    proof (intro allI impI)
      fix j assume j: "j < length ((sys_pcs st)[m := p1])"
      show "may_be h ph' j ((sys_pcs st)[m := p1] ! j)"
      proof (cases "j = m")
        case True
        with j mb' show ?thesis by simp
      next
        case False
        from j have jl: "j < length (sys_pcs st)" by simp
        with mbs have a: "may_be h ph j (sys_pcs st ! j)" by simp
        from jl have "sys_pcs st ! j \<in> set (sys_pcs st)" by simp
        with nt have b: "releasing p \<longrightarrow> sys_pcs st ! j \<noteq> TryLock" by auto
        from others False a b have "may_be h ph' j (sys_pcs st ! j)" by blast
        with False show ?thesis by simp
      qed
    qed
    from t0 so' all wf' ld ld' have "sf_inv c key loaders t0 h ph' (sys_step c key options loaders ev st)"
      unfolding st' by (simp add: sf_inv_def)
    then show ?thesis by blast
  qed
qed

lemma sf_run:
  assumes set: "setting c options loaders (length (sys_pcs st)) t0 h"
    and inv: "sf_inv c key loaders t0 h ph st"
    and time: "sys_clock st + elapsed evs < h"
    and tm: "timely_run c key options loaders evs st"
  shows "\<exists>ph'. sf_inv c key loaders t0 h ph' (sys_run c key options loaders evs st)"
  using assms
proof (induction evs arbitrary: st ph)
  case Nil
  then show ?case by auto
next
  case (Cons ev evs)
  let ?st1 = "sys_step c key options loaders ev st"
  from Cons.prems(3) elapsed_nonneg [of evs] have t1: "sys_clock st + elapsed [ev] < h"
    by (simp add: elapsed_Cons [of ev evs])
  from Cons.prems(4) have tm1: "timely ev st" and tm2: "timely_run c key options loaders evs ?st1"
    by simp_all
  from sf_step [OF Cons.prems(1,2) t1 tm1] obtain ph1 where inv1: "sf_inv c key loaders t0 h ph1 ?st1"
    by blast
  have set1: "setting c options loaders (length (sys_pcs ?st1)) t0 h"
    using Cons.prems(1) by simp
  have time1: "sys_clock ?st1 + elapsed evs < h"
    using Cons.prems(3) by (simp add: sys_step_clock elapsed_Cons [of ev evs])
  from Cons.IH [OF set1 inv1 time1 tm2] show ?case by simp
qed

lemma sf_inv_results:
  assumes inv: "sf_inv c key loaders t0 h ph st"
    and n: "0 < length (sys_pcs st)"
    and lo: "\<forall>i < length (sys_pcs st). \<exists>v. loaders i = Returns (Some v)"
  shows "sys_loads st \<le> 1 \<and>
         (\<exists>i < length (sys_pcs st). \<exists>v. loaders i = Returns (Some v) \<and>
            (\<forall>j < length (sys_pcs st). \<forall>r. sys_pcs st ! j = Done r \<longrightarrow>
                r = Inr (Some v) \<and> sys_loads st = 1))"
proof -
  from inv have mbs: "\<forall>j < length (sys_pcs st). may_be h ph j (sys_pcs st ! j)"
    and wf: "phase_wf loaders (length (sys_pcs st)) ph"
    and ld: "sys_loads st = phase_loads ph"
    by (simp_all add: sf_inv_def)
  show ?thesis
  proof (cases ph)
    case Cold
    from lo n obtain v where v: "loaders 0 = Returns (Some v)" by blast
    from mbs Cold have "\<forall>j < length (sys_pcs st). \<forall>r. sys_pcs st ! j \<noteq> Done r" by auto
    with v n ld Cold show ?thesis by auto
  next
    case (Held i v)
    from mbs Held have "\<forall>j < length (sys_pcs st). \<forall>r. sys_pcs st ! j \<noteq> Done r"
      by (auto split: if_splits)
    with wf ld Held show ?thesis by auto
  next
    case (Written i v)
    from mbs Written have "\<forall>j < length (sys_pcs st). \<forall>r. sys_pcs st ! j = Done r \<longrightarrow> r = Inr (Some v)"
      by (auto split: if_splits)
    with wf ld Written show ?thesis by auto
  next
    case (Released i v)
    from mbs Released have "\<forall>j < length (sys_pcs st). \<forall>r. sys_pcs st ! j = Done r \<longrightarrow> r = Inr (Some v)"
      by auto
    with wf ld Released show ?thesis by auto
  qed
qed

lemma single_flight_safety:
  assumes n: "0 < n"
    and cold: "live s t0 (cache_key c key) = None" "live s t0 (lock_key c key) = None"
    and lo: "\<forall>i < n. \<exists>v. loaders i = Returns (Some v) \<and>
                          c_deserialize c (c_serialize c (Some v)) = Inr (Some v)"
    and q: "quick c options evs"
    and tm: "timely_run c key options loaders evs (sys_init s t0 n)"
  shows "sys_loads (sys_run c key options loaders evs (sys_init s t0 n)) \<le> 1 \<and>
         (\<exists>i < n. \<exists>v. loaders i = Returns (Some v) \<and>
            (\<forall>j < n. \<forall>r. sys_pcs (sys_run c key options loaders evs (sys_init s t0 n)) ! j = Done r \<longrightarrow>
                r = Inr (Some v) \<and>
                sys_loads (sys_run c key options loaders evs (sys_init s t0 n)) = 1))"
proof -
  define h where "h = t0 + elapsed evs + 1"
  let ?st0 = "sys_init s t0 n :: 'a system"
  have len: "length (sys_pcs ?st0) = n" by (simp add: sys_init_def)
  from q lo elapsed_nonneg [of evs] have set: "setting c options loaders (length (sys_pcs ?st0)) t0 h"
    unfolding len by (auto simp: quick_def setting_def h_def Let_def split: option.splits)
  from cold have inv: "sf_inv c key loaders t0 h Cold ?st0"
    by (simp add: sf_inv_def sys_init_def)
  have time: "sys_clock ?st0 + elapsed evs < h" by (simp add: sys_init_def h_def)
  from sf_run [OF set inv time tm] obtain ph where
    inv': "sf_inv c key loaders t0 h ph (sys_run c key options loaders evs ?st0)" by blast
  have len': "length (sys_pcs (sys_run c key options loaders evs ?st0)) = n" by (simp add: len)
  from lo have lo': "\<forall>i < n. \<exists>v. loaders i = Returns (Some v)" by blast
  from sf_inv_results [OF inv'] n lo' show ?thesis unfolding len' by simp
qed

subsection \<open>The contended schedule\<close>

lemma sys_run_append:
  "sys_run c key options loaders (xs @ ys) st =
     sys_run c key options loaders ys (sys_run c key options loaders xs st)"
  by (induction xs arbitrary: st) simp_all

lemma timely_run_append:
  "timely_run c key options loaders (xs @ ys) st =
     (timely_run c key options loaders xs st \<and>
      timely_run c key options loaders ys (sys_run c key options loaders xs st))"
  by (induction xs arbitrary: st) auto

lemma elapsed_append: "elapsed (xs @ ys) = elapsed xs + elapsed ys"
  by (induction xs rule: elapsed.induct) simp_all

lemma elapsed_runs: "elapsed (map Run js) = 0"
  by (induction js) simp_all

lemma run_one:
  assumes "m < length (sys_pcs st)"
    and "gos_step c key options (loaders m) (sys_clock st) (sys_pcs st ! m) (sys_store st) = (p1, s1, k)"
  shows "sys_store (sys_step c key options loaders (Run m) st) = s1"
    and "sys_clock (sys_step c key options loaders (Run m) st) = sys_clock st"
    and "sys_loads (sys_step c key options loaders (Run m) st) = sys_loads st + k"
    and "sys_pcs (sys_step c key options loaders (Run m) st) = (sys_pcs st)[m := p1]"
  using assms by (simp_all add: sys_step_def)

lemma timely_not_releasing:
  "m < length (sys_pcs st) \<Longrightarrow> \<not> releasing (sys_pcs st ! m) \<Longrightarrow> timely (Run m) st"
  by (simp add: timely_def)

lemma run_each:
  assumes "distinct js"
    and "\<forall>j \<in> set js. j < length (sys_pcs st) \<and> \<not> releasing (sys_pcs st ! j) \<and>
            gos_step c key options (loaders j) (sys_clock st) (sys_pcs st ! j) (sys_store st)
              = (f j, sys_store st, 0)"
  shows "timely_run c key options loaders (map Run js) st \<and>
         sys_store (sys_run c key options loaders (map Run js) st) = sys_store st \<and>
         sys_clock (sys_run c key options loaders (map Run js) st) = sys_clock st \<and>
         sys_loads (sys_run c key options loaders (map Run js) st) = sys_loads st \<and>
         (\<forall>k < length (sys_pcs st).
            sys_pcs (sys_run c key options loaders (map Run js) st) ! k =
              (if k \<in> set js then f k else sys_pcs st ! k))"
  using assms
proof (induction js arbitrary: st)
  case Nil
  then show ?case by simp
next
  case (Cons j js)
  let ?st1 = "sys_step c key options loaders (Run j) st"
  from Cons.prems(2) have j: "j < length (sys_pcs st)" and nr: "\<not> releasing (sys_pcs st ! j)"
    and g: "gos_step c key options (loaders j) (sys_clock st) (sys_pcs st ! j) (sys_store st)
              = (f j, sys_store st, 0)"
    by simp_all
  note one = run_one [where loaders = loaders and m = j and st = st, OF j g]
  from Cons.prems(1) have d: "distinct js" and nj: "j \<notin> set js" by simp_all
  have pre: "\<forall>i \<in> set js. i < length (sys_pcs ?st1) \<and> \<not> releasing (sys_pcs ?st1 ! i) \<and>
            gos_step c key options (loaders i) (sys_clock ?st1) (sys_pcs ?st1 ! i) (sys_store ?st1)
              = (f i, sys_store ?st1, 0)"
  proof
    fix i assume i: "i \<in> set js"
    with nj have ne: "i \<noteq> j" by auto
    from i Cons.prems(2) have a: "i < length (sys_pcs st)" "\<not> releasing (sys_pcs st ! i)"
      "gos_step c key options (loaders i) (sys_clock st) (sys_pcs st ! i) (sys_store st)
              = (f i, sys_store st, 0)" by simp_all
    from ne have "sys_pcs ?st1 ! i = sys_pcs st ! i" unfolding one(4) by simp
    with a show "i < length (sys_pcs ?st1) \<and> \<not> releasing (sys_pcs ?st1 ! i) \<and>
            gos_step c key options (loaders i) (sys_clock ?st1) (sys_pcs ?st1 ! i) (sys_store ?st1)
              = (f i, sys_store ?st1, 0)"
      unfolding one(1) one(2) by simp
  qed
  note IH = Cons.IH [OF d pre]
  have tm: "timely (Run j) st" by (rule timely_not_releasing [OF j nr])
  have pcs: "\<forall>k < length (sys_pcs st).
            sys_pcs (sys_run c key options loaders (map Run js) ?st1) ! k =
              (if k \<in> set (j # js) then f k else sys_pcs st ! k)"
  proof (intro allI impI)
    fix k assume k: "k < length (sys_pcs st)"
    then have "k < length (sys_pcs ?st1)" by simp
    with IH have e: "sys_pcs (sys_run c key options loaders (map Run js) ?st1) ! k =
              (if k \<in> set js then f k else sys_pcs ?st1 ! k)" by blast
    show "sys_pcs (sys_run c key options loaders (map Run js) ?st1) ! k =
              (if k \<in> set (j # js) then f k else sys_pcs st ! k)"
      unfolding e one(4) using k by (cases "k = j") auto
  qed
  from IH tm pcs show ?case by (simp add: one(1) one(2) one(3))
qed

lemma elapsed_contended: "elapsed (contended n d) = int d"
  by (simp add: contended_def elapsed_append elapsed_runs)

lemma contended_completes:
  assumes n: "0 < n"
    and cold: "live s t0 (cache_key c key) = None" "live s t0 (lock_key c key) = None"
    and v0: "loaders 0 = Returns (Some v0)"
    and rt: "c_deserialize c (c_serialize c (Some v0)) = Inr (Some v0)"
    and slow: "(case opt_retryInterval options of None \<Rightarrow> 50 | Some x \<Rightarrow> x) \<le> int d"
    and q: "quick c options (contended n d)"
  shows "timely_run c key options loaders (contended n d) (sys_init s t0 n) \<and>
         (\<forall>j < n. sys_pcs (sys_run c key options loaders (contended n d) (sys_init s t0 n)) ! j
                     = Done (Inr (Some v0)))"
proof -
  let ?lt = "case opt_lockTTL options of None \<Rightarrow> 10 | Some x \<Rightarrow> x"
  let ?wt = "case opt_waitTimeout options of None \<Rightarrow> 5000 | Some x \<Rightarrow> x"
  let ?ri = "case opt_retryInterval options of None \<Rightarrow> 50 | Some x \<Rightarrow> x"
  let ?ttl = "case opt_ttl options of None \<Rightarrow> c_defaultTTL c | Some t \<Rightarrow> Some t"
  let ?K = "cache_key c key" and ?LK = "lock_key c key"
  let ?run = "sys_run c key options loaders" and ?step = "sys_step c key options loaders"
  let ?others = "map Run [1..<n]"
  from q have lt: "int d < ?lt * 1000" and wt: "int d < ?wt"
    and ttl: "case ?ttl of None \<Rightarrow> True | Some t \<Rightarrow> int d < t * 1000"
    by (auto simp: quick_def elapsed_contended Let_def split: option.splits)
  from lt have lt0: "0 < ?lt" by linarith
  from wt have wt0: "0 < ?wt" by linarith
  from ttl have ttl0: "case ?ttl of None \<Rightarrow> True | Some t \<Rightarrow> 0 < t"
    by (auto split: option.splits)

  define st0 :: "'a system" where "st0 = sys_init s t0 n"
  have st0: "sys_store st0 = s" "sys_clock st0 = t0" "length (sys_pcs st0) = n"
    "\<forall>k < n. sys_pcs st0 ! k = Start"
    by (simp_all add: st0_def sys_init_def)

  define st1 where "st1 = ?run (map Run [0..<n]) st0"
  have pre1: "\<forall>j \<in> set [0..<n]. j < length (sys_pcs st0) \<and> \<not> releasing (sys_pcs st0 ! j) \<and>
            gos_step c key options (loaders j) (sys_clock st0) (sys_pcs st0 ! j) (sys_store st0)
              = (TryLock, sys_store st0, 0)"
    using st0 step_Start_miss [OF cold(1)] by simp
  from run_each [where f = "\<lambda>j. TryLock" and js = "[0..<n]" and st = st0 and loaders = loaders, OF _ pre1]
  have tm1: "timely_run c key options loaders (map Run [0..<n]) st0"
    and st1: "sys_store st1 = s" "sys_clock st1 = t0" "\<forall>k < n. sys_pcs st1 ! k = TryLock"
    using st0 by (simp_all add: st1_def)
  have len1: "length (sys_pcs st1) = n" by (simp add: st1_def st0)

  define e where "e = \<lparr>val = RStr ''1'', expireAt = Some (t0 + ?lt * 1000)\<rparr>"
  define s2 where "s2 = s(?LK \<mapsto> e)"
  define st2 where "st2 = ?step (Run 0) st1"
  have g2: "gos_step c key options (loaders 0) (sys_clock st1) (sys_pcs st1 ! 0) (sys_store st1)
              = (Loading, s2, 1)"
    using st1 n step_TryLock_free [OF cold(2) lt0] by (simp add: s2_def e_def)
  note one2 = run_one [where loaders = loaders and m = 0 and st = st1, OF _ g2]
  have tm2: "timely (Run 0) st1"
    by (rule timely_not_releasing) (use st1 n len1 in simp_all)
  have st2: "sys_store st2 = s2" "sys_clock st2 = t0" "sys_pcs st2 ! 0 = Loading"
    "\<forall>k < n. 0 < k \<longrightarrow> sys_pcs st2 ! k = TryLock"
    using one2 st1 n len1 by (simp_all add: st2_def)
  have len2: "length (sys_pcs st2) = n" by (simp add: st2_def len1)

  have lock2: "fresh_until (t0 + 1) s2 ?LK"
    using lt0 by (simp add: s2_def e_def fresh_until_def)
  have miss2: "live s2 t ?K = live s t ?K" for t
    using lock_key_neq_cache_key [of c key] by (simp add: s2_def live_upd_other)
  define sl where "sl = (Sleeping (t0 + ?wt) (t0 + ?ri) :: 'a pc)"
  define st3 where "st3 = ?run ?others st2"
  have pre3: "\<forall>j \<in> set [1..<n]. j < length (sys_pcs st2) \<and> \<not> releasing (sys_pcs st2 ! j) \<and>
            gos_step c key options (loaders j) (sys_clock st2) (sys_pcs st2 ! j) (sys_store st2)
              = (sl, sys_store st2, 0)"
    using st2 len2 step_TryLock_busy [OF lock2 _ lt0 wt0, of t0] by (simp add: sl_def)
  from run_each [where f = "\<lambda>j. sl" and js = "[1..<n]" and st = st2 and loaders = loaders, OF _ pre3]
  have tm3: "timely_run c key options loaders ?others st2"
    and st3: "sys_store st3 = s2" "sys_clock st3 = t0"
    and pcs3: "\<forall>k < n. sys_pcs st3 ! k = (if k \<in> set [1..<n] then sl else sys_pcs st2 ! k)"
    using st2 len2 by (simp_all add: st3_def)
  have len3: "length (sys_pcs st3) = n" by (simp add: st3_def len2)
  from pcs3 st2 n have p3: "sys_pcs st3 ! 0 = Loading" "\<forall>k < n. 0 < k \<longrightarrow> sys_pcs st3 ! k = sl"
    by auto

  define st4 where "st4 = ?step (Tick d) st3"
  have st4: "sys_store st4 = s2" "sys_clock st4 = t0 + int d" "sys_pcs st4 = sys_pcs st3"
    using st3 by (simp_all add: st4_def sys_step_def)
  have tm4: "timely (Tick d) st3" by (simp add: timely_def)

  define st5 where "st5 = ?step (Run 0) st4"
  have g5: "gos_step c key options (loaders 0) (sys_clock st4) (sys_pcs st4 ! 0) (sys_store st4)
              = (HolderSet (Some v0), s2, 0)"
    using st4 p3 v0 step_Loading [of c key options "Some v0" "t0 + int d" s2] by simp
  note one5 = run_one [where loaders = loaders and m = 0 and st = st4, OF _ g5]
  have tm5: "timely (Run 0) st4"
    by (rule timely_not_releasing) (use st4 p3 n len3 in simp_all)
  have st5: "sys_store st5 = s2" "sys_clock st5 = t0 + int d" "sys_pcs st5 ! 0 = HolderSet (Some v0)"
    "\<forall>k < n. 0 < k \<longrightarrow> sys_pcs st5 ! k = sl"
    using one5 st4 p3 n len3 by (simp_all add: st5_def)
  have len5: "length (sys_pcs st5) = n" by (simp add: st5_def st4 len3)

  define e6 where "e6 = \<lparr>val = RStr (c_serialize c (Some v0)),
               expireAt = (case ?ttl of None \<Rightarrow> None | Some t \<Rightarrow> Some (t0 + int d + t * 1000))\<rparr>"
  define s6 where "s6 = s2(?K \<mapsto> e6)"
  define st6 where "st6 = ?step (Run 0) st5"
  have g6: "gos_step c key options (loaders 0) (sys_clock st5) (sys_pcs st5 ! 0) (sys_store st5)
              = (Release (Inr (Some v0)), s6, 0)"
    using st5 step_HolderSet [OF ttl0, of key "loaders 0" "t0 + int d" "Some v0" s2]
    by (simp add: s6_def e6_def)
  note one6 = run_one [where loaders = loaders and m = 0 and st = st5, OF _ g6]
  have tm6: "timely (Run 0) st5"
    by (rule timely_not_releasing) (use st5 n len5 in simp_all)
  have st6: "sys_store st6 = s6" "sys_clock st6 = t0 + int d" "sys_pcs st6 ! 0 = Release (Inr (Some v0))"
    "\<forall>k < n. 0 < k \<longrightarrow> sys_pcs st6 ! k = sl"
    using one6 st5 n len5 by (simp_all add: st6_def)
  have len6: "length (sys_pcs st6) = n" by (simp add: st6_def len5)

  define s7 where "s7 = s6(?LK := None)"
  define st7 where "st7 = ?step (Run 0) st6"
  have g7: "gos_step c key options (loaders 0) (sys_clock st6) (sys_pcs st6 ! 0) (sys_store st6)
              = (Done (Inr (Some v0)), s7, 0)"
    using st6 step_Release [of c key options "loaders 0" "t0 + int d" "Inr (Some v0)" s6]
    by (simp add: s7_def)
  note one7 = run_one [where loaders = loaders and m = 0 and st = st6, OF _ g7]
  have nt6: "TryLock \<notin> set (sys_pcs st6)"
  proof
    assume "TryLock \<in> set (sys_pcs st6)"
    then obtain k where k: "k < n" "sys_pcs st6 ! k = TryLock"
      using len6 by (auto simp: in_set_conv_nth)
    with st6 show False by (cases "k = 0") (auto simp: sl_def)
  qed
  have tm7: "timely (Run 0) st6" using nt6 by (simp add: timely_def)
  have st7: "sys_store st7 = s7" "sys_clock st7 = t0 + int d" "sys_pcs st7 ! 0 = Done (Inr (Some v0))"
    "\<forall>k < n. 0 < k \<longrightarrow> sys_pcs st7 ! k = sl"
    using one7 st6 n len6 by (simp_all add: st7_def)
  have len7: "length (sys_pcs st7) = n" by (simp add: st7_def len6)

  define pl where "pl = (Poll (t0 + ?wt) :: 'a pc)"
  define st8 where "st8 = ?run ?others st7"
  have pre8: "\<forall>j \<in> set [1..<n]. j < length (sys_pcs st7) \<and> \<not> releasing (sys_pcs st7 ! j) \<and>
            gos_step c key options (loaders j) (sys_clock st7) (sys_pcs st7 ! j) (sys_store st7)
              = (pl, sys_store st7, 0)"
    using st7 len7 slow by (simp add: sl_def pl_def step_Sleeping)
  from run_each [where f = "\<lambda>j. pl" and js = "[1..<n]" and st = st7 and loaders = loaders, OF _ pre8]
  have tm8: "timely_run c key options loaders ?others st7"
    and st8: "sys_store st8 = s7" "sys_clock st8 = t0 + int d"
    and pcs8: "\<forall>k < n. sys_pcs st8 ! k = (if k \<in> set [1..<n] then pl else sys_pcs st7 ! k)"
    using st7 len7 by (simp_all add: st8_def)
  have len8: "length (sys_pcs st8) = n" by (simp add: st8_def len7)
  from pcs8 st7 n have p8: "sys_pcs st8 ! 0 = Done (Inr (Some v0))" "\<forall>k < n. 0 < k \<longrightarrow> sys_pcs st8 ! k = pl"
    by auto

  have hit: "cached c key (t0 + int d + 1) v0 s7"
    using ttl0 lock_key_neq_cache_key [of c key]
    by (auto simp: s7_def s6_def e6_def cached_def fresh_until_def split: option.splits)
  define st9 where "st9 = ?run ?others st8"
  have pre9: "\<forall>j \<in> set [1..<n]. j < length (sys_pcs st8) \<and> \<not> releasing (sys_pcs st8 ! j) \<and>
            gos_step c key options (loaders j) (sys_clock st8) (sys_pcs st8 ! j) (sys_store st8)
              = (Done (Inr (Some v0)), sys_store st8, 0)"
    using st8 p8 len8 step_Poll_hit [OF hit _ rt, of "t0 + int d"] by (simp add: pl_def)
  from run_each [where f = "\<lambda>j. Done (Inr (Some v0))" and js = "[1..<n]" and st = st8 and loaders = loaders,
      OF _ pre9]
  have tm9: "timely_run c key options loaders ?others st8"
    and pcs9: "\<forall>k < n. sys_pcs st9 ! k = (if k \<in> set [1..<n] then Done (Inr (Some v0)) else sys_pcs st8 ! k)"
    using len8 by (simp_all add: st9_def)
  have fin: "\<forall>k < n. sys_pcs st9 ! k = Done (Inr (Some v0))"
  proof (intro allI impI)
    fix k assume k: "k < n"
    show "sys_pcs st9 ! k = Done (Inr (Some v0))"
    proof (cases "k = 0")
      case True
      with pcs9 p8 k show ?thesis by simp
    next
      case False
      with pcs9 k show ?thesis by simp
    qed
  qed

  have run: "?run (contended n d) (sys_init s t0 n) = st9"
    by (simp add: contended_def sys_run_append st9_def st8_def st7_def st6_def st5_def st4_def
        st3_def st2_def st1_def st0_def)
  have tm: "timely_run c key options loaders (contended n d) (sys_init s t0 n)"
    using tm1 tm2 tm3 tm4 tm5 tm6 tm7 tm8 tm9
    by (simp add: contended_def timely_run_append sys_run_append st8_def st7_def st6_def st5_def
        st4_def st3_def st2_def st1_def st0_def)
  from run tm fin show ?thesis by simp
qed

subsection \<open>Stampede single flight\<close>

text \<open>
  Claim C1, as the code has it. \<open>n \<ge> 1\<close> callers of \<open>getOrSetSafe\<close> on one cold key (no
  live cache entry, no live lock), each with a loader that returns a value other than
  \<^verbatim>\<open>null\<close> which the serializer pair gives back. In every schedule that lasts less than
  \<open>lockTTL\<close>, \<open>waitTimeout\<close> and the TTL of the entry, and in which no caller stands
  between its cache miss and its lock attempt when the holder releases the lease: the
  loader is called at most once, exactly once as soon as a caller has returned, and
  every caller that has returned has returned the value of that one call. And in the
  contended schedule (all callers miss and attempt the lock, the loader takes \<open>d\<close>
  milliseconds, not less than \<open>retryInterval\<close> and within the same bounds) all \<open>n\<close>
  callers return that value.
\<close>

theorem stampede_single_flight:
  assumes n: "0 < n"
    and cold: "live s t0 (cache_key c key) = None" "live s t0 (lock_key c key) = None"
    and lo: "\<forall>i < n. \<exists>v. loaders i = Returns (Some v) \<and>
                          c_deserialize c (c_serialize c (Some v)) = Inr (Some v)"
  shows "(\<forall>evs. quick c options evs \<and> timely_run c key options loaders evs (sys_init s t0 n) \<longrightarrow>
            sys_loads (sys_run c key options loaders evs (sys_init s t0 n)) \<le> 1 \<and>
            (\<exists>i < n. \<exists>v. loaders i = Returns (Some v) \<and>
               (\<forall>j < n. \<forall>r.
                   sys_pcs (sys_run c key options loaders evs (sys_init s t0 n)) ! j = Done r \<longrightarrow>
                   r = Inr (Some v) \<and>
                   sys_loads (sys_run c key options loaders evs (sys_init s t0 n)) = 1))) \<and>
         (\<forall>d. (case opt_retryInterval options of None \<Rightarrow> 50 | Some x \<Rightarrow> x) \<le> int d \<and>
              quick c options (contended n d) \<longrightarrow>
            timely_run c key options loaders (contended n d) (sys_init s t0 n) \<and>
            sys_loads (sys_run c key options loaders (contended n d) (sys_init s t0 n)) = 1 \<and>
            (\<exists>v. loaders 0 = Returns (Some v) \<and>
               (\<forall>j < n. sys_pcs (sys_run c key options loaders (contended n d) (sys_init s t0 n)) ! j
                           = Done (Inr (Some v)))))"
proof (intro conjI allI impI)
  fix evs
  assume a: "quick c options evs \<and> timely_run c key options loaders evs (sys_init s t0 n)"
  then have q: "quick c options evs"
    and tm: "timely_run c key options loaders evs (sys_init s t0 n)" by simp_all
  from single_flight_safety [OF n cold lo q tm]
  show "sys_loads (sys_run c key options loaders evs (sys_init s t0 n)) \<le> 1"
    and "\<exists>i < n. \<exists>v. loaders i = Returns (Some v) \<and>
               (\<forall>j < n. \<forall>r.
                   sys_pcs (sys_run c key options loaders evs (sys_init s t0 n)) ! j = Done r \<longrightarrow>
                   r = Inr (Some v) \<and>
                   sys_loads (sys_run c key options loaders evs (sys_init s t0 n)) = 1)"
    by simp_all
next
  fix d
  assume a: "(case opt_retryInterval options of None \<Rightarrow> 50 | Some x \<Rightarrow> x) \<le> int d \<and>
              quick c options (contended n d)"
  then have slow: "(case opt_retryInterval options of None \<Rightarrow> 50 | Some x \<Rightarrow> x) \<le> int d"
    and q: "quick c options (contended n d)" by simp_all
  from lo n obtain v where v: "loaders 0 = Returns (Some v)"
    and rt: "c_deserialize c (c_serialize c (Some v)) = Inr (Some v)" by blast
  from contended_completes [where loaders = loaders, OF n cold v rt slow q]
  have tm: "timely_run c key options loaders (contended n d) (sys_init s t0 n)"
    and fin: "\<forall>j < n. sys_pcs (sys_run c key options loaders (contended n d) (sys_init s t0 n)) ! j
                     = Done (Inr (Some v))" by simp_all
  from single_flight_safety [OF n cold lo q tm]
  have "\<forall>j < n. \<forall>r.
           sys_pcs (sys_run c key options loaders (contended n d) (sys_init s t0 n)) ! j = Done r \<longrightarrow>
           sys_loads (sys_run c key options loaders (contended n d) (sys_init s t0 n)) = 1"
    by blast
  with fin n have one: "sys_loads (sys_run c key options loaders (contended n d) (sys_init s t0 n)) = 1"
    by blast
  show "timely_run c key options loaders (contended n d) (sys_init s t0 n)" by (rule tm)
  show "sys_loads (sys_run c key options loaders (contended n d) (sys_init s t0 n)) = 1" by (rule one)
  from v fin show "\<exists>v. loaders 0 = Returns (Some v) \<and>
               (\<forall>j < n. sys_pcs (sys_run c key options loaders (contended n d) (sys_init s t0 n)) ! j
                           = Done (Inr (Some v)))" by blast
qed

lemmas sf_eval = replicate_two replicate_three
  sys_step_def sys_init_def gos_step_def cache_get_def cache_set_def redis_get_def redis_set_def
  redis_set_ex_def redis_set_nx_ex_def redis_del_def live_def lock_key_def cache_key_def prefixKey_def
  default_cache_def no_options_def numbered_loaders_def empty_store_def store_error_def
  JSON_roundtrip Let_def

lemma numbered_loaders_roundtrip:
  "\<exists>v. numbered_loaders i = Returns (Some v) \<and>
        c_deserialize default_cache (c_serialize default_cache (Some v)) = Inr (Some v)"
  by (simp add: numbered_loaders_def default_cache_def JSON_roundtrip)

text \<open>Three callers with the default options. In the first schedule caller 1 polls once
  while caller 0 is still loading, and caller 2 wakes up after the release; the second
  is the contended schedule with a loader of 60 ms.\<close>

theorem stampede_single_flight_witness:
  "quick default_cache no_options
     [Run 0, Run 1, Run 2, Run 0, Run 1, Run 2, Tick 60, Run 1, Run 1, Run 0, Run 0, Run 0,
      Run 2, Run 2, Tick 50, Run 1, Run 1] \<and>
   timely_run default_cache ''k'' no_options numbered_loaders
     [Run 0, Run 1, Run 2, Run 0, Run 1, Run 2, Tick 60, Run 1, Run 1, Run 0, Run 0, Run 0,
      Run 2, Run 2, Tick 50, Run 1, Run 1] (sys_init empty_store 0 3) \<and>
   sys_pcs (sys_run default_cache ''k'' no_options numbered_loaders
     [Run 0, Run 1, Run 2, Run 0, Run 1, Run 2, Tick 60, Run 1, Run 1, Run 0, Run 0, Run 0,
      Run 2, Run 2, Tick 50, Run 1, Run 1] (sys_init empty_store 0 3))
     = [Done (Inr (Some (JNum 0))), Done (Inr (Some (JNum 0))), Done (Inr (Some (JNum 0)))] \<and>
   sys_loads (sys_run default_cache ''k'' no_options numbered_loaders
     [Run 0, Run 1, Run 2, Run 0, Run 1, Run 2, Tick 60, Run 1, Run 1, Run 0, Run 0, Run 0,
      Run 2, Run 2, Tick 50, Run 1, Run 1] (sys_init empty_store 0 3)) = 1 \<and>
   quick default_cache no_options (contended 3 60) \<and>
   sys_pcs (sys_run default_cache ''k'' no_options numbered_loaders (contended 3 60)
              (sys_init empty_store 0 3))
     = [Done (Inr (Some (JNum 0))), Done (Inr (Some (JNum 0))), Done (Inr (Some (JNum 0)))] \<and>
   sys_loads (sys_run default_cache ''k'' no_options numbered_loaders (contended 3 60)
              (sys_init empty_store 0 3)) = 1"
proof -
  let ?evs = "[Run 0, Run 1, Run 2, Run 0, Run 1, Run 2, Tick 60, Run 1, Run 1, Run 0, Run 0, Run 0,
      Run 2, Run 2, Tick 50, Run 1, Run 1]"
  have n: "(0::nat) < 3" by simp
  have cold: "live empty_store 0 (cache_key default_cache ''k'') = None"
    "live empty_store 0 (lock_key default_cache ''k'') = None"
    by (simp_all add: live_def empty_store_def)
  have lo: "\<forall>i < 3. \<exists>v. numbered_loaders i = Returns (Some v) \<and>
              c_deserialize default_cache (c_serialize default_cache (Some v)) = Inr (Some v)"
    using numbered_loaders_roundtrip by blast
  note th = stampede_single_flight [where options = no_options, OF n cold lo]
  have q: "quick default_cache no_options ?evs"
    by (simp add: quick_def no_options_def default_cache_def)
  have tm: "timely_run default_cache ''k'' no_options numbered_loaders ?evs (sys_init empty_store 0 3)"
    by (simp add: sf_eval timely_def)
  have pcs: "sys_pcs (sys_run default_cache ''k'' no_options numbered_loaders ?evs (sys_init empty_store 0 3))
     = [Done (Inr (Some (JNum 0))), Done (Inr (Some (JNum 0))), Done (Inr (Some (JNum 0)))]"
    by (simp add: sf_eval)
  define st where "st = sys_run default_cache ''k'' no_options numbered_loaders ?evs (sys_init empty_store 0 3)"
  from pcs have p0: "sys_pcs st ! 0 = Done (Inr (Some (JNum 0)))" by (simp add: st_def)
  from th [THEN conjunct1, rule_format, of ?evs] q tm
  have "\<forall>j < 3. \<forall>r. sys_pcs st ! j = Done r \<longrightarrow> sys_loads st = 1"
    unfolding st_def by blast
  then have "sys_pcs st ! 0 = Done (Inr (Some (JNum 0))) \<longrightarrow> sys_loads st = 1"
    using n by blast
  with p0 have one: "sys_loads st = 1" by simp
  have q2: "quick default_cache no_options (contended 3 60)"
    by (simp add: quick_def elapsed_contended no_options_def default_cache_def)
  have slow: "(case opt_retryInterval no_options of None \<Rightarrow> 50 | Some x \<Rightarrow> x) \<le> int 60"
    by (simp add: no_options_def)
  from th [THEN conjunct2, rule_format, of 60] slow q2
  have one2: "sys_loads (sys_run default_cache ''k'' no_options numbered_loaders (contended 3 60)
              (sys_init empty_store 0 3)) = 1"
    by blast
  have pcs2: "sys_pcs (sys_run default_cache ''k'' no_options numbered_loaders (contended 3 60)
              (sys_init empty_store 0 3))
     = [Done (Inr (Some (JNum 0))), Done (Inr (Some (JNum 0))), Done (Inr (Some (JNum 0)))]"
    by (simp add: contended_def upt_rec sf_eval)
  from q tm pcs one q2 pcs2 one2 show ?thesis unfolding st_def by blast
qed

text \<open>The claim as stated fails when the loader is slower than \<open>waitTimeout\<close>: caller 0
  holds the lock and is still loading after 5050 ms; caller 1 has polled, its wait has
  timed out, and it has called the loader itself.\<close>

theorem stampede_single_flight_counterexample:
  "sys_pcs (sys_run default_cache ''k'' no_options numbered_loaders
      [Run 0, Run 1, Run 0, Run 1, Tick 50, Run 1, Run 1, Tick 5000, Run 1, Run 1]
      (sys_init empty_store 0 2)) = [Loading, FallbackLoading] \<and>
   sys_loads (sys_run default_cache ''k'' no_options numbered_loaders
      [Run 0, Run 1, Run 0, Run 1, Tick 50, Run 1, Run 1, Tick 5000, Run 1, Run 1]
      (sys_init empty_store 0 2)) = 2"
  by (simp add: sys_eval)

end
